theory Spec2Isabelle
  imports Main "HOL-Library.Word"
begin

section \<open>Data model of the proxy session (proxysession.cpp)\<close>

text \<open>A \<^verbatim>\<open>QByteArray\<close> (and a \<^verbatim>\<open>QString\<close>) is a list of characters.\<close>

type_synonym bytes = string

subsection \<open>Signed tokens\<close>

text \<open>
  A \<^verbatim>\<open>QVariant\<close> as the token codec produces and consumes it: the invalid variant, an
  unsigned number, a string, a map from names to variants, and any other type.
\<close>

datatype qvariant =
    QInvalid
  | QUInt "32 word"
  | QString bytes
  | QMap "(bytes \<times> qvariant) list"
  | QOther

definition isValid :: "qvariant \<Rightarrow> bool" where
  "isValid v = (v \<noteq> QInvalid)"

definition isMap :: "qvariant \<Rightarrow> bool" where
  "isMap v = (case v of QMap m \<Rightarrow> True | _ \<Rightarrow> False)"

definition toMap :: "qvariant \<Rightarrow> (bytes \<times> qvariant) list" where
  "toMap v = (case v of QMap m \<Rightarrow> m | _ \<Rightarrow> [])"

text \<open>\<^verbatim>\<open>QVariantMap::value(key)\<close>: the stored variant, or the invalid variant for a missing key.\<close>

definition qmap_value :: "(bytes \<times> qvariant) list \<Rightarrow> bytes \<Rightarrow> qvariant" where
  "qmap_value m k = (case map_of m k of None \<Rightarrow> QInvalid | Some v \<Rightarrow> v)"

text \<open>
  What the token functions take from outside this file: \<^verbatim>\<open>Jwt::decode\<close>, \<^verbatim>\<open>Jwt::encode\<close>,
  \<^verbatim>\<open>QVariant::toInt\<close> (the result is a 32-bit \<^verbatim>\<open>int\<close>) and
  \<^verbatim>\<open>QDateTime::currentDateTimeUtc().toTime_t()\<close> (a 32-bit \<^verbatim>\<open>uint\<close>).
\<close>

record jwt_env =
  jwt_decode :: "bytes \<Rightarrow> bytes \<Rightarrow> qvariant"
  jwt_encode :: "(bytes \<times> qvariant) list \<Rightarrow> bytes \<Rightarrow> bytes"
  toInt :: "qvariant \<Rightarrow> 32 word"
  toTime_t :: "32 word"

text \<open>\<^verbatim>\<open>make_token\<close>: the expiry is computed in \<^verbatim>\<open>uint\<close> arithmetic.\<close>

definition make_token :: "jwt_env \<Rightarrow> bytes \<Rightarrow> bytes \<Rightarrow> bytes" where
  "make_token env iss key =
     jwt_encode env [(''exp'', QUInt (toTime_t env + 3600)), (''iss'', QString iss)] key"

text \<open>
  \<^verbatim>\<open>validate_token\<close>: \<^verbatim>\<open>exp\<close> is an \<^verbatim>\<open>int\<close>, and the clock is cast to \<^verbatim>\<open>int\<close> before the
  comparison, so both comparisons read the 32-bit values as two's complement.
\<close>

definition validate_token :: "jwt_env \<Rightarrow> bytes \<Rightarrow> bytes \<Rightarrow> bool" where
  "validate_token env token key =
     (let claimObj = jwt_decode env token key in
      if \<not> isValid claimObj \<or> \<not> isMap claimObj then False
      else
        let claim = toMap claimObj;
            exp = toInt env (qmap_value claim ''exp'')
        in if sint exp \<le> 0 \<or> sint exp \<le> sint (toTime_t env) then False else True)"

text \<open>A codec and a conversion to evaluate \<open>validate_token\<close> on: the decoder returns
  the given claim, and \<open>toInt\<close> reads a number as it is and anything else as 0.\<close>

definition number_toInt :: "qvariant \<Rightarrow> 32 word" where
  "number_toInt v = (case v of QUInt w \<Rightarrow> w | _ \<Rightarrow> 0)"

definition fixed_env :: "qvariant \<Rightarrow> 32 word \<Rightarrow> jwt_env" where
  "fixed_env claim now =
     \<lparr>jwt_decode = (\<lambda>token key. claim), jwt_encode = (\<lambda>claim key. []),
      toInt = number_toInt, toTime_t = now\<rparr>"

subsection \<open>Headers and descriptors\<close>

text \<open>
  Modelled from the spec: \<^verbatim>\<open>HttpHeaders\<close> is declared outside this file. The spec gives an
  ordered header list with case-insensitive name match and duplicate names permitted;
  \<^verbatim>\<open>get\<close> returns the value of the first header of that name, or the empty value.
\<close>

type_synonym http_headers = "(bytes \<times> bytes) list"

definition lower_char :: "char \<Rightarrow> char" where
  "lower_char c =
     (case map_of (zip ''ABCDEFGHIJKLMNOPQRSTUVWXYZ'' ''abcdefghijklmnopqrstuvwxyz'') c of
        None \<Rightarrow> c
      | Some l \<Rightarrow> l)"

definition name_eq :: "bytes \<Rightarrow> bytes \<Rightarrow> bool" where
  "name_eq a b = (map lower_char a = map lower_char b)"

definition headers_get :: "http_headers \<Rightarrow> bytes \<Rightarrow> bytes" where
  "headers_get hs k = (case find (\<lambda>h. name_eq (fst h) k) hs of None \<Rightarrow> [] | Some h \<Rightarrow> snd h)"

definition headers_getAll :: "http_headers \<Rightarrow> bytes \<Rightarrow> bytes list" where
  "headers_getAll hs k = map snd (filter (\<lambda>h. name_eq (fst h) k) hs)"

definition headers_contains :: "http_headers \<Rightarrow> bytes \<Rightarrow> bool" where
  "headers_contains hs k = list_ex (\<lambda>h. name_eq (fst h) k) hs"

definition headers_removeAll :: "http_headers \<Rightarrow> bytes \<Rightarrow> http_headers" where
  "headers_removeAll hs k = filter (\<lambda>h. \<not> name_eq (fst h) k) hs"

fun headers_join :: "bytes list \<Rightarrow> bytes" where
  "headers_join [] = []"
| "headers_join [v] = v"
| "headers_join (v # vs) = v @ '', '' @ headers_join vs"

text \<open>\<^verbatim>\<open>QByteArray::indexOf\<close> and \<^verbatim>\<open>QByteArray::mid\<close>.\<close>

definition indexOf :: "bytes \<Rightarrow> char \<Rightarrow> int" where
  "indexOf b c = (if c \<in> set b then int (length (takeWhile (\<lambda>x. x \<noteq> c) b)) else - 1)"

definition mid :: "bytes \<Rightarrow> int \<Rightarrow> int \<Rightarrow> bytes" where
  "mid b pos len = take (nat len) (drop (nat pos) b)"

definition size_of :: "bytes \<Rightarrow> int" where
  "size_of b = int (length b)"

record uri =
  uri_scheme :: bytes
  uri_host :: bytes
  uri_encodedPath :: bytes

record http_request_data =
  req_method :: bytes
  req_uri :: uri
  req_headers :: http_headers
  req_body :: bytes

record http_response_data =
  resp_code :: int
  resp_reason :: bytes
  resp_headers :: http_headers
  resp_body :: bytes

record target =
  t_host :: bytes
  t_port :: int
  t_ssl :: bool
  t_trusted :: bool
  t_insecure :: bool

text \<open>A \<^verbatim>\<open>DomainMap::Entry\<close>; the null entry is \<open>None\<close>.\<close>

record dm_entry =
  e_sigIss :: bytes
  e_sigKey :: bytes
  e_prefix :: bytes
  e_targets :: "target list"

record xff_rule =
  xff_truncate :: int
  xff_append :: bool

subsection \<open>The objects a session talks to\<close>

record server_state =
  inSeq :: int
  outSeq :: int
  outCredits :: int
  userData :: bytes

text \<open>
  A \<^verbatim>\<open>RequestSession\<close>, a downstream client: its address \<open>rs_ptr\<close>, what its accessors
  return, and of its raw request handle (\<^verbatim>\<open>rs->request()\<close>) the body received so far,
  whether the input has ended, and the server-side protocol state.
\<close>

record request_session =
  rs_ptr :: nat
  rs_rid :: "bytes \<times> bytes"
  rs_isHttps :: bool
  rs_peerAddress :: bytes
  rs_autoCrossOrigin :: bool
  rs_jsonpCallback :: bytes
  rs_isRetry :: bool
  rs_requestData :: http_request_data
  rs_request_avail :: bytes
  rs_request_isInputFinished :: bool
  rs_serverState :: server_state

text \<open>The shared downstream request \<^verbatim>\<open>inRequest\<close>: unread body and end of input.\<close>

record in_request =
  in_avail :: bytes
  in_isInputFinished :: bool

text \<open>
  Modelled from the spec: the error-condition enum of the upstream request is declared
  outside this file; the spec names \<open>LengthRequired\<close>, \<open>Connect\<close>, \<open>ConnectTimeout\<close>,
  \<open>Tls\<close> and leaves the others open.
\<close>

datatype error_condition =
    ErrorLengthRequired
  | ErrorConnect
  | ErrorConnectTimeout
  | ErrorTls
  | ErrorOther nat

text \<open>
  An upstream \<^verbatim>\<open>ZhttpRequest\<close> as the session observes it: the response line and headers,
  the body bytes not yet read, \<^verbatim>\<open>isFinished()\<close> and \<^verbatim>\<open>errorCondition()\<close>.
\<close>

record zreq =
  z_responseCode :: int
  z_responseReason :: bytes
  z_responseHeaders :: http_headers
  z_avail :: bytes
  z_isFinished :: bool
  z_errorCondition :: error_condition

definition new_zreq :: zreq where
  "new_zreq = \<lparr>z_responseCode = 0, z_responseReason = [], z_responseHeaders = [],
     z_avail = [], z_isFinished = False, z_errorCondition = ErrorOther 0\<rparr>"

subsection \<open>Client entries and the handoff record\<close>

datatype item_state =
    WaitingForResponse
  | ItemResponding
  | Responded
  | Errored
  | Pausing
  | Paused

record session_item =
  rs :: request_session
  si_state :: item_state
  bytesToWrite :: int

definition SessionItem :: "request_session \<Rightarrow> session_item" where
  "SessionItem r = \<lparr>rs = r, si_state = WaitingForResponse, bytesToWrite = 0\<rparr>"

record accept_request =
  areq_rid :: "bytes \<times> bytes"
  areq_https :: bool
  areq_peerAddress :: bytes
  areq_autoCrossOrigin :: bool
  areq_jsonpCallback :: bytes
  areq_inSeq :: int
  areq_outSeq :: int
  areq_outCredits :: int
  areq_userData :: bytes

record accept_data =
  ad_requests :: "accept_request list"
  ad_requestData :: http_request_data
  ad_haveResponse :: bool
  ad_response :: http_response_data
  ad_channelPrefix :: bytes

text \<open>Modelled from the spec: \<^verbatim>\<open>InspectData\<close> is declared outside this file; the spec
  calls it an opaque side-channel record.\<close>

type_synonym inspect_data = bytes

subsection \<open>What a session does to the outside\<close>

text \<open>
  Every call on a client session or on an upstream request, and every signal emitted, is
  appended to the session's trace. Clients and upstream requests are named by address.
\<close>

datatype effect =
    RsStartResponse nat int bytes http_headers
  | RsWriteResponseBody nat bytes
  | RsEndResponseBody nat
  | RsRespondError nat int bytes bytes
  | RsRespondCannotAccept nat
  | RsPause nat
  | RsDelete nat
  | ZCreateRequest nat
  | ZSetIgnorePolicies nat
  | ZSetIgnoreTlsErrors nat
  | ZSetConnectHost nat bytes
  | ZSetConnectPort nat int
  | ZStart nat bytes uri http_headers
  | ZWriteBody nat bytes
  | ZEndBody nat
  | ZReadBody nat int
  | ZDelete nat
  | AddNotAllowed
  | RequestSessionDestroyed nat
  | FinishedByPassthrough
  | FinishedForAccept accept_data

datatype session_state = Stopped | Requesting | Accepting | Responding

text \<open>
  \<^verbatim>\<open>ProxySession::Private\<close>. The fields are those of the class; \<open>sessionItems\<close> is the set of
  client entries in the order \<^verbatim>\<open>foreach\<close> visits them, and \<^verbatim>\<open>sessionItemsBySession\<close> is the
  lookup of an entry by the address of its client. \<open>zobjs\<close> holds the upstream request
  objects that exist (created and not deleted), \<open>znext\<close> is the address the next created
  one gets, \<open>deleted\<close> says that the session was deleted from inside a signal, and \<open>trace\<close>
  is what the session has done so far.
\<close>

record psession =
  state :: session_state
  inRequest :: "in_request option"
  isHttps :: bool
  channelPrefix :: bytes
  targets :: "target list"
  zhttpRequest :: "nat option"
  addAllowed :: bool
  haveInspectData :: bool
  idata :: inspect_data
  acceptTypes :: "bytes set"
  sessionItems :: "session_item list"
  requestData :: http_request_data
  responseData :: http_response_data
  requestBody :: bytes
  responseBody :: bytes
  initialRequestBody :: bytes
  requestBytesToWrite :: int
  total_recv :: int
  buffering :: bool
  defaultSigIss :: bytes
  defaultSigKey :: bytes
  defaultUpstreamKey :: bytes
  passToUpstream :: bool
  useXForwardedProtocol :: bool
  xffRule :: xff_rule
  xffTrustedRule :: xff_rule
  zobjs :: "nat \<Rightarrow> zreq option"
  znext :: nat
  deleted :: bool
  trace :: "effect list"

text \<open>An assertion that fails and a null pointer that is dereferenced end the process.\<close>

datatype abort = AssertFailed | NullDeref

definition bind_r :: "abort + 'a \<Rightarrow> ('a \<Rightarrow> abort + 'b) \<Rightarrow> abort + 'b" where
  "bind_r r f = (case r of Inl e \<Rightarrow> Inl e | Inr x \<Rightarrow> f x)"

definition MAX_ACCEPT_REQUEST_BODY :: int where "MAX_ACCEPT_REQUEST_BODY = 100000"
definition MAX_ACCEPT_RESPONSE_BODY :: int where "MAX_ACCEPT_RESPONSE_BODY = 100000"
definition MAX_INITIAL_BUFFER :: int where "MAX_INITIAL_BUFFER = 100000"
definition MAX_STREAM_BUFFER :: int where "MAX_STREAM_BUFFER = 100000"

text \<open>
  The constructor. \<open>buffering\<close> is not in the initialiser list, so its first value is
  whatever the memory holds: the parameter \<open>b0\<close>. The two XFF rules are default-constructed
  by a class outside this file: the parameter \<open>xr0\<close>.
\<close>

definition Private :: "bool \<Rightarrow> xff_rule \<Rightarrow> psession" where
  "Private b0 xr0 =
     \<lparr>state = Stopped, inRequest = None, isHttps = False, channelPrefix = [], targets = [],
      zhttpRequest = None, addAllowed = True, haveInspectData = False, idata = [],
      acceptTypes = {''application/grip-instruct''}, sessionItems = [],
      requestData = \<lparr>req_method = [],
        req_uri = \<lparr>uri_scheme = [], uri_host = [], uri_encodedPath = []\<rparr>,
        req_headers = [], req_body = []\<rparr>,
      responseData = \<lparr>resp_code = 0, resp_reason = [], resp_headers = [], resp_body = []\<rparr>,
      requestBody = [], responseBody = [], initialRequestBody = [],
      requestBytesToWrite = 0, total_recv = 0, buffering = b0,
      defaultSigIss = [], defaultSigKey = [], defaultUpstreamKey = [],
      passToUpstream = False, useXForwardedProtocol = False,
      xffRule = xr0, xffTrustedRule = xr0,
      zobjs = (\<lambda>h. None), znext = 0, deleted = False, trace = []\<rparr>"

definition emit :: "effect list \<Rightarrow> psession \<Rightarrow> psession" where
  "emit es s = s\<lparr>trace := trace s @ es\<rparr>"

text \<open>A \<^verbatim>\<open>foreach\<close> over the entries whose body may change the entry, call out, or fail an
  assertion.\<close>

fun foreach :: "('a \<Rightarrow> abort + ('a \<times> effect list)) \<Rightarrow> 'a list \<Rightarrow> abort + ('a list \<times> effect list)" where
  "foreach f [] = Inr ([], [])"
| "foreach f (x # xs) =
     bind_r (f x) (\<lambda>(x', es).
       bind_r (foreach f xs) (\<lambda>(xs', es'). Inr (x' # xs', es @ es')))"

definition foreach_items ::
    "(session_item \<Rightarrow> abort + (session_item \<times> effect list)) \<Rightarrow> psession \<Rightarrow> abort + psession" where
  "foreach_items f s =
     bind_r (foreach f (sessionItems s)) (\<lambda>(sis, es).
       Inr (s\<lparr>sessionItems := sis, trace := trace s @ es\<rparr>))"

text \<open>\<^verbatim>\<open>sessionItemsBySession.value(rs)\<close>, and the change of the entry it returns.\<close>

definition lookup_item :: "nat \<Rightarrow> session_item list \<Rightarrow> session_item option" where
  "lookup_item p sis = find (\<lambda>si. rs_ptr (rs si) = p) sis"

fun update_item :: "nat \<Rightarrow> (session_item \<Rightarrow> session_item) \<Rightarrow> session_item list \<Rightarrow> session_item list" where
  "update_item p f [] = []"
| "update_item p f (si # sis) =
     (if rs_ptr (rs si) = p then f si # sis else si # update_item p f sis)"

fun remove_item :: "nat \<Rightarrow> session_item list \<Rightarrow> session_item list" where
  "remove_item p [] = []"
| "remove_item p (si # sis) = (if rs_ptr (rs si) = p then sis else si # remove_item p sis)"

text \<open>
  \<^verbatim>\<open>readBody(n)\<close> of an upstream request returns at most \<open>n\<close> of the bytes
  not yet read and leaves the others: \<open>readBody_data\<close> is what is returned,
  \<open>readBody_rest\<close> what is left.
\<close>

definition readBody_data :: "int \<Rightarrow> bytes \<Rightarrow> bytes" where
  "readBody_data n avail = (if size_of avail \<le> n then avail else take (nat n) avail)"

definition readBody_rest :: "int \<Rightarrow> bytes \<Rightarrow> bytes" where
  "readBody_rest n avail = (if size_of avail \<le> n then [] else drop (nat n) avail)"

text \<open>Dereferencing \<^verbatim>\<open>zhttpRequest\<close>.\<close>

definition deref_z :: "psession \<Rightarrow> abort + (nat \<times> zreq)" where
  "deref_z s =
     (case zhttpRequest s of
        None \<Rightarrow> Inl NullDeref
      | Some h \<Rightarrow> (case zobjs s h of None \<Rightarrow> Inl NullDeref | Some z \<Rightarrow> Inr (h, z)))"

section \<open>The operations of the session\<close>

subsection \<open>Fan-out helpers\<close>

definition pendingWrites :: "psession \<Rightarrow> bool" where
  "pendingWrites s =
     list_ex (\<lambda>si. bytesToWrite si \<noteq> - 1 \<and> bytesToWrite si > 0) (sessionItems s)"

definition cannotAccept_body :: "session_item \<Rightarrow> abort + (session_item \<times> effect list)" where
  "cannotAccept_body si =
     (if si_state si \<noteq> Errored then
        (if si_state si \<noteq> WaitingForResponse then Inl AssertFailed
         else Inr (si\<lparr>si_state := Responded, bytesToWrite := - 1\<rparr>,
                   [RsRespondCannotAccept (rs_ptr (rs si))]))
      else Inr (si, []))"

definition cannotAcceptAll :: "psession \<Rightarrow> abort + psession" where
  "cannotAcceptAll s = foreach_items cannotAccept_body s"

definition reject_body ::
    "int \<Rightarrow> bytes \<Rightarrow> bytes \<Rightarrow> session_item \<Rightarrow> abort + (session_item \<times> effect list)" where
  "reject_body c r m si =
     (if si_state si \<noteq> Errored then
        (if si_state si \<noteq> WaitingForResponse then Inl AssertFailed
         else Inr (si\<lparr>si_state := Responded, bytesToWrite := - 1\<rparr>,
                   [RsRespondError (rs_ptr (rs si)) c r m]))
      else Inr (si, []))"

definition rejectAll :: "int \<Rightarrow> bytes \<Rightarrow> bytes \<Rightarrow> psession \<Rightarrow> abort + psession" where
  "rejectAll c r m s = foreach_items (reject_body c r m) s"

definition destroy_body :: "session_item \<Rightarrow> abort + (session_item \<times> effect list)" where
  "destroy_body si =
     (if si_state si = WaitingForResponse then Inl AssertFailed
      else if si_state si = ItemResponding then
        Inr (si\<lparr>si_state := Responded, bytesToWrite := - 1\<rparr>,
             [RsEndResponseBody (rs_ptr (rs si))])
      else Inr (si, []))"

definition destroyAll :: "psession \<Rightarrow> abort + psession" where
  "destroyAll s =
     (if state s \<noteq> Responding then Inl AssertFailed else foreach_items destroy_body s)"

subsection \<open>Targets and the request body\<close>

definition tryNextTarget :: "psession \<Rightarrow> abort + psession" where
  "tryNextTarget s =
     (case targets s of
        [] \<Rightarrow> rejectAll 502 ''Bad Gateway'' ''Error while proxying to origin.'' s
      | target # rest \<Rightarrow>
          let u = (req_uri (requestData s))
                    \<lparr>uri_scheme := (if t_ssl target then ''https'' else ''http'')\<rparr>;
              h = znext s;
              s1 = emit ([ZCreateRequest h]
                         @ (if t_trusted target then [ZSetIgnorePolicies h] else [])
                         @ (if t_insecure target then [ZSetIgnoreTlsErrors h] else [])
                         @ [ZSetConnectHost h (t_host target), ZSetConnectPort h (t_port target),
                            ZStart h (req_method (requestData s)) u (req_headers (requestData s))])
                     (s\<lparr>targets := rest, zhttpRequest := Some h,
                        zobjs := (zobjs s)(h := Some new_zreq), znext := Suc h\<rparr>);
              s2 = (if initialRequestBody s1 \<noteq> [] then
                      emit [ZWriteBody h (initialRequestBody s1)]
                        (s1\<lparr>requestBytesToWrite :=
                              requestBytesToWrite s1 + size_of (initialRequestBody s1)\<rparr>)
                    else s1)
          in (case inRequest s2 of
                None \<Rightarrow> Inr (emit [ZEndBody h] s2)
              | Some ir \<Rightarrow> if in_isInputFinished ir then Inr (emit [ZEndBody h] s2) else Inr s2))"

definition tryRequestRead :: "psession \<Rightarrow> abort + psession" where
  "tryRequestRead s =
     (case inRequest s of
        None \<Rightarrow> Inl NullDeref
      | Some ir \<Rightarrow>
          let buf = in_avail ir;
              s1 = s\<lparr>inRequest := Some (ir\<lparr>in_avail := []\<rparr>)\<rparr>
          in if buf = [] then Inr s1
             else
               let s2 = (if buffering s1 then
                           (if size_of (requestBody s1) + size_of buf > MAX_ACCEPT_REQUEST_BODY
                            then s1\<lparr>requestBody := [], buffering := False\<rparr>
                            else s1\<lparr>requestBody := requestBody s1 @ buf\<rparr>)
                         else s1)
               in (case zhttpRequest s2 of
                     None \<Rightarrow> Inl NullDeref
                   | Some h \<Rightarrow>
                       Inr (emit [ZWriteBody h buf]
                              (s2\<lparr>requestBytesToWrite := requestBytesToWrite s2 + size_of buf\<rparr>))))"

subsection \<open>Reading the response\<close>

definition pause_body :: "session_item \<Rightarrow> abort + (session_item \<times> effect list)" where
  "pause_body si = Inr (si\<lparr>si_state := Pausing\<rparr>, [RsPause (rs_ptr (rs si))])"

definition finish_body :: "session_item \<Rightarrow> abort + (session_item \<times> effect list)" where
  "finish_body si =
     (if si_state si = WaitingForResponse then Inl AssertFailed
      else if si_state si = ItemResponding then
        Inr (si\<lparr>si_state := Responded\<rparr>, [RsEndResponseBody (rs_ptr (rs si))])
      else Inr (si, []))"

definition checkIncomingResponseFinished :: "psession \<Rightarrow> abort + psession" where
  "checkIncomingResponseFinished s =
     bind_r (deref_z s) (\<lambda>(h, z).
       if z_isFinished z then
         (if \<not> buffering s \<and> pendingWrites s then Inr s
          else
            let s1 = emit [ZDelete h] (s\<lparr>zobjs := (zobjs s)(h := None), zhttpRequest := None\<rparr>)
            in if state s1 = Accepting then foreach_items pause_body s1
               else bind_r (foreach_items finish_body s1) (\<lambda>s2.
                      if addAllowed s2 then Inr (emit [AddNotAllowed] (s2\<lparr>addAllowed := False\<rparr>))
                      else Inr s2))
       else Inr s)"

definition write_body :: "bytes \<Rightarrow> session_item \<Rightarrow> abort + (session_item \<times> effect list)" where
  "write_body buf si =
     (if si_state si = WaitingForResponse then Inl AssertFailed
      else if si_state si = ItemResponding then
        Inr (si\<lparr>bytesToWrite := bytesToWrite si + size_of buf\<rparr>,
             [RsWriteResponseBody (rs_ptr (rs si)) buf])
      else Inr (si, []))"

text \<open>
  \<^verbatim>\<open>tryResponseRead\<close>. The parameter \<open>del\<close> says whether a receiver of \<^verbatim>\<open>addNotAllowed\<close>
  deletes the session during the emit (the \<^verbatim>\<open>if(!self) return\<close> guard).
\<close>

definition tryResponseRead :: "bool \<Rightarrow> psession \<Rightarrow> abort + psession" where
  "tryResponseRead del s =
     (if \<not> buffering s \<and> pendingWrites s then Inr s
      else
        bind_r (deref_z s) (\<lambda>(h, z).
          let buf = readBody_data MAX_STREAM_BUFFER (z_avail z);
              s1 = emit [ZReadBody h MAX_STREAM_BUFFER]
                     (s\<lparr>zobjs := (zobjs s)
                           (h := Some (z\<lparr>z_avail := readBody_rest MAX_STREAM_BUFFER (z_avail z)\<rparr>))\<rparr>)
          in if buf \<noteq> [] then
               (let s2 = s1\<lparr>total_recv := total_recv s1 + size_of buf\<rparr>
                in if state s2 = Accepting then
                     (if size_of (responseBody s2) + size_of buf > MAX_ACCEPT_RESPONSE_BODY
                      then rejectAll 502 ''Bad Gateway'' ''GRIP instruct response too large.'' s2
                      else checkIncomingResponseFinished
                             (s2\<lparr>responseBody := responseBody s2 @ buf\<rparr>))
                   else
                     (let wasAllowed = addAllowed s2;
                          s3 = (if buffering s2 then
                                  (if size_of (responseBody s2) + size_of buf > MAX_INITIAL_BUFFER
                                   then s2\<lparr>responseBody := [], buffering := False,
                                           addAllowed := False\<rparr>
                                   else s2\<lparr>responseBody := responseBody s2 @ buf\<rparr>)
                                else s2)
                      in bind_r (foreach_items (write_body buf) s3) (\<lambda>s4.
                           if wasAllowed \<and> \<not> addAllowed s4 then
                             (let s5 = emit [AddNotAllowed] s4
                              in if del then Inr (s5\<lparr>deleted := True\<rparr>)
                                 else checkIncomingResponseFinished s5)
                           else checkIncomingResponseFinished s4)))
             else checkIncomingResponseFinished s1))"

subsection \<open>Attaching a client\<close>

definition strip_request_headers :: "http_headers \<Rightarrow> http_headers" where
  "strip_request_headers hs =
     headers_removeAll (headers_removeAll (headers_removeAll (headers_removeAll
       (headers_removeAll hs ''Connection'') ''Keep-Alive'') ''Accept-Encoding'')
       ''Content-Encoding'') ''Transfer-Encoding''"

definition catch_up :: "http_response_data \<Rightarrow> bytes \<Rightarrow> session_item \<Rightarrow> abort + (session_item \<times> effect list)" where
  "catch_up rd rbody si =
     Inr (si\<lparr>si_state := ItemResponding,
              bytesToWrite := (if rbody \<noteq> [] then bytesToWrite si + size_of rbody
                               else bytesToWrite si)\<rparr>,
          [RsStartResponse (rs_ptr (rs si)) (resp_code rd) (resp_reason rd) (resp_headers rd)]
          @ (if rbody \<noteq> [] then [RsWriteResponseBody (rs_ptr (rs si)) rbody] else []))"

text \<open>
  \<^verbatim>\<open>add\<close>. The route map (\<^verbatim>\<open>domainMap->entry\<close>) and the token codec are taken from
  outside: the parameters \<open>dm\<close> and \<open>env\<close>. The new entry is put in front, so that the
  lookup by client address finds the entry attached last, as \<^verbatim>\<open>QHash::insert\<close> does.
\<close>

definition route_signing :: "jwt_env \<Rightarrow> dm_entry \<Rightarrow> psession \<Rightarrow> psession" where
  "route_signing env entry s1 =
     (let sig = (if e_sigIss entry \<noteq> [] \<and> e_sigKey entry \<noteq> []
                 then (e_sigIss entry, e_sigKey entry)
                 else (defaultSigIss s1, defaultSigKey s1));
          s2 = s1\<lparr>channelPrefix := e_prefix entry, targets := e_targets entry\<rparr>;
          s3 = (if defaultUpstreamKey s2 \<noteq> [] then
                  (let token = headers_get (req_headers (requestData s2)) ''Grip-Sig''
                   in if token \<noteq> [] \<and> validate_token env token (defaultUpstreamKey s2)
                      then s2\<lparr>passToUpstream := True\<rparr> else s2)
                else s2)
      in if \<not> passToUpstream s3 then
           (let hs = headers_removeAll (req_headers (requestData s3)) ''Grip-Sig'';
                hs' = (if fst sig \<noteq> [] \<and> snd sig \<noteq> [] then
                         (let token = make_token env (fst sig) (snd sig)
                          in if token \<noteq> [] then hs @ [(''Grip-Sig'', token)] else hs)
                       else hs)
            in s3\<lparr>requestData := (requestData s3)\<lparr>req_headers := hs'\<rparr>\<rparr>)
         else s3)"

definition forwarded_protocol :: "psession \<Rightarrow> psession" where
  "forwarded_protocol s4 =
     (if useXForwardedProtocol s4 then
        (let hs = headers_removeAll (req_headers (requestData s4)) ''X-Forwarded-Protocol'';
             hs' = (if isHttps s4 then hs @ [(''X-Forwarded-Protocol'', ''https'')] else hs)
         in s4\<lparr>requestData := (requestData s4)\<lparr>req_headers := hs'\<rparr>\<rparr>)
      else s4)"

definition forwarded_for :: "request_session \<Rightarrow> psession \<Rightarrow> psession" where
  "forwarded_for r s5 =
     (let xr = (if passToUpstream s5 then xffTrustedRule s5 else xffRule s5);
          xv0 = headers_getAll (req_headers (requestData s5)) ''X-Forwarded-For'';
          hs6 = headers_removeAll (req_headers (requestData s5)) ''X-Forwarded-For'';
          xv1 = (if xff_truncate xr \<ge> 0
                 then drop (nat (max (int (length xv0) - xff_truncate xr) 0)) xv0 else xv0);
          xv2 = (if xff_append xr then xv1 @ [rs_peerAddress r] else xv1);
          hs7 = (if xv2 \<noteq> [] then hs6 @ [(''X-Forwarded-For'', headers_join xv2)] else hs6)
      in s5\<lparr>requestData := (requestData s5)\<lparr>req_headers := hs7\<rparr>\<rparr>)"

definition start_requesting :: "request_session \<Rightarrow> psession \<Rightarrow> psession" where
  "start_requesting r s6 =
     (let s7 = s6\<lparr>state := Requesting, buffering := True\<rparr>;
          s8 = (if \<not> rs_isRetry r then
                  s7\<lparr>inRequest := Some \<lparr>in_avail = [],
                                         in_isInputFinished = rs_request_isInputFinished r\<rparr>,
                     requestBody := requestBody s7 @ rs_request_avail r\<rparr>
                else s7);
          s9 = s8\<lparr>initialRequestBody := requestBody s8\<rparr>
      in if size_of (requestBody s9) > MAX_ACCEPT_REQUEST_BODY
         then s9\<lparr>requestBody := [], buffering := False\<rparr> else s9)"

text \<open>The part of \<^verbatim>\<open>add\<close> after the route was found, in the order of the source: signing,
  X-Forwarded-Protocol, X-Forwarded-For, the start of the request body, the first target.\<close>

definition add_route ::
    "jwt_env \<Rightarrow> request_session \<Rightarrow> dm_entry \<Rightarrow> psession \<Rightarrow> abort + psession" where
  "add_route env r entry s1 =
     tryNextTarget
       (start_requesting r (forwarded_for r (forwarded_protocol (route_signing env entry s1))))"

definition add ::
    "(bytes \<Rightarrow> bytes \<Rightarrow> bool \<Rightarrow> dm_entry option) \<Rightarrow> jwt_env \<Rightarrow> request_session \<Rightarrow> psession
     \<Rightarrow> abort + psession" where
  "add dm env r s =
     (if \<not> addAllowed s then Inl AssertFailed
      else
        let s0 = s\<lparr>sessionItems := SessionItem r # sessionItems s\<rparr>
        in if state s0 = Stopped then
             (let host = uri_host (req_uri (rs_requestData r));
                  s1 = s0\<lparr>isHttps := rs_isHttps r,
                          requestBody := requestBody s0 @ req_body (rs_requestData r),
                          requestData := (rs_requestData r)
                            \<lparr>req_body := [],
                             req_headers := strip_request_headers (req_headers (rs_requestData r))\<rparr>\<rparr>
              in case dm host (uri_encodedPath (req_uri (requestData s1))) (isHttps s1) of
                   None \<Rightarrow> rejectAll 502 ''Bad Gateway'' (''No route for host: '' @ host) s1
                 | Some entry \<Rightarrow> add_route env r entry s1)
           else if state s0 = Requesting then Inr s0
           else if state s0 = Responding then
             (case catch_up (responseData s0) (responseBody s0) (SessionItem r) of
                Inl e \<Rightarrow> Inl e
              | Inr (si, es) \<Rightarrow> Inr (emit es (s0\<lparr>sessionItems := si # sessionItems s\<rparr>)))
           else Inr s0)"

subsection \<open>Slots\<close>

definition inRequest_readyRead :: "psession \<Rightarrow> abort + psession" where
  "inRequest_readyRead s =
     bind_r (tryRequestRead s) (\<lambda>s1.
       case inRequest s1 of
         None \<Rightarrow> Inl NullDeref
       | Some ir \<Rightarrow>
           if in_isInputFinished ir then
             (case zhttpRequest s1 of
                None \<Rightarrow> Inl NullDeref
              | Some h \<Rightarrow> Inr (emit [ZEndBody h] s1))
           else Inr s1)"

definition inRequest_error :: "psession \<Rightarrow> abort + psession" where
  "inRequest_error s =
     rejectAll 500 ''Internal Server Error'' ''Primary shared request failed.'' s"

definition bare_content_type :: "bytes \<Rightarrow> bytes" where
  "bare_content_type contentType =
     (let at = indexOf contentType (CHR '';'')
      in if at \<noteq> - 1 then mid contentType 0 at else contentType)"

definition strip_response_headers :: "http_headers \<Rightarrow> http_headers" where
  "strip_response_headers hs =
     (let hs1 = headers_removeAll (headers_removeAll (headers_removeAll
                  (headers_removeAll hs ''Connection'') ''Keep-Alive'')
                  ''Content-Encoding'') ''Transfer-Encoding''
      in if \<not> headers_contains hs1 ''Content-Length'' \<and> \<not> headers_contains hs1 ''Transfer-Encoding''
         then hs1 @ [(''Transfer-Encoding'', ''chunked'')] else hs1)"

definition zhttpRequest_readyRead :: "bool \<Rightarrow> psession \<Rightarrow> abort + psession" where
  "zhttpRequest_readyRead del s =
     (if state s = Requesting then
        bind_r (deref_z s) (\<lambda>(h, z).
          let buf = readBody_data MAX_INITIAL_BUFFER (z_avail z);
              s1 = emit [ZReadBody h MAX_INITIAL_BUFFER]
                     (s\<lparr>responseData := (responseData s)
                           \<lparr>resp_code := z_responseCode z, resp_reason := z_responseReason z,
                            resp_headers := z_responseHeaders z\<rparr>,
                        zobjs := (zobjs s)
                           (h := Some (z\<lparr>z_avail := readBody_rest MAX_INITIAL_BUFFER (z_avail z)\<rparr>)),
                        responseBody := responseBody s @ buf\<rparr>);
              s2 = s1\<lparr>total_recv := total_recv s1 + size_of (responseBody s1)\<rparr>;
              contentType =
                bare_content_type (headers_get (resp_headers (responseData s2)) ''Content-Type'')
          in if \<not> passToUpstream s2 \<and> contentType \<in> acceptTypes s2 then
               (if \<not> buffering s2 then
                  rejectAll 502 ''Bad Gateway'' ''Request too large to accept GRIP instruct.'' s2
                else checkIncomingResponseFinished (s2\<lparr>state := Accepting\<rparr>))
             else
               (let s3 = s2\<lparr>state := Responding,
                            responseData := (responseData s2)
                              \<lparr>resp_headers :=
                                 strip_response_headers (resp_headers (responseData s2))\<rparr>\<rparr>
                in bind_r (foreach_items (catch_up (responseData s3) (responseBody s3)) s3)
                     checkIncomingResponseFinished))
      else if state s = Accepting \<or> state s = Responding then tryResponseRead del s
      else Inl AssertFailed)"

definition zhttpRequest_bytesWritten :: "int \<Rightarrow> psession \<Rightarrow> abort + psession" where
  "zhttpRequest_bytesWritten count s =
     (let s1 = s\<lparr>requestBytesToWrite := requestBytesToWrite s - count\<rparr>
      in if \<not> requestBytesToWrite s1 \<ge> 0 then Inl AssertFailed
         else if requestBytesToWrite s1 = 0 then tryRequestRead s1
         else Inr s1)"

definition zhttpRequest_error :: "psession \<Rightarrow> abort + psession" where
  "zhttpRequest_error s =
     bind_r (deref_z s) (\<lambda>(h, z).
       let e = z_errorCondition z
       in if state s = Requesting \<or> state s = Accepting then
            (case e of
               ErrorLengthRequired \<Rightarrow>
                 rejectAll 411 ''Length Required'' ''Must provide Content-Length header.'' s
             | ErrorConnect \<Rightarrow>
                 if state s \<noteq> Requesting then Inl AssertFailed else tryNextTarget s
             | ErrorConnectTimeout \<Rightarrow>
                 if state s \<noteq> Requesting then Inl AssertFailed else tryNextTarget s
             | ErrorTls \<Rightarrow>
                 if state s \<noteq> Requesting then Inl AssertFailed else tryNextTarget s
             | ErrorOther n \<Rightarrow>
                 rejectAll 502 ''Bad Gateway'' ''Error while proxying to origin.'' s)
          else if state s = Responding then destroyAll s
          else Inr s)"

text \<open>The slots of a client take the address \<open>p\<close> of the sender.\<close>

definition rs_bytesWritten :: "nat \<Rightarrow> int \<Rightarrow> bool \<Rightarrow> psession \<Rightarrow> abort + psession" where
  "rs_bytesWritten p count del s =
     (case lookup_item p (sessionItems s) of
        None \<Rightarrow> Inl AssertFailed
      | Some si \<Rightarrow>
          if bytesToWrite si \<noteq> - 1 \<and> \<not> bytesToWrite si - count \<ge> 0 then Inl AssertFailed
          else
            let s1 = (if bytesToWrite si \<noteq> - 1 then
                        s\<lparr>sessionItems := update_item p
                             (\<lambda>si. si\<lparr>bytesToWrite := bytesToWrite si - count\<rparr>) (sessionItems s)\<rparr>
                      else s)
            in if \<not> buffering s1 \<and> zhttpRequest s1 \<noteq> None \<and> \<not> pendingWrites s1
               then tryResponseRead del s1 else Inr s1)"

text \<open>\<open>del\<close>: whether a receiver of \<^verbatim>\<open>requestSessionDestroyed\<close> deletes the session.\<close>

definition rs_finished :: "nat \<Rightarrow> bool \<Rightarrow> psession \<Rightarrow> abort + psession" where
  "rs_finished p del s =
     (case lookup_item p (sessionItems s) of
        None \<Rightarrow> Inl AssertFailed
      | Some si \<Rightarrow>
          let s1 = emit [RequestSessionDestroyed (rs_ptr (rs si))] s
          in if del then Inr (s1\<lparr>deleted := True\<rparr>)
             else
               let s2 = emit [RsDelete p] (s1\<lparr>sessionItems := remove_item p (sessionItems s1)\<rparr>)
               in if sessionItems s2 = [] then Inr (emit [FinishedByPassthrough] s2) else Inr s2)"

definition cleanup :: "psession \<Rightarrow> psession" where
  "cleanup s =
     emit (map (\<lambda>si. RsDelete (rs_ptr (rs si))) (sessionItems s)) (s\<lparr>sessionItems := []\<rparr>)"

definition accept_request_of :: "session_item \<Rightarrow> accept_request" where
  "accept_request_of si =
     (let ss = rs_serverState (rs si)
      in \<lparr>areq_rid = rs_rid (rs si), areq_https = rs_isHttps (rs si),
          areq_peerAddress = rs_peerAddress (rs si),
          areq_autoCrossOrigin = rs_autoCrossOrigin (rs si),
          areq_jsonpCallback = rs_jsonpCallback (rs si),
          areq_inSeq = inSeq ss, areq_outSeq = outSeq ss, areq_outCredits = outCredits ss,
          areq_userData = userData ss\<rparr>)"

text \<open>
  \<^verbatim>\<open>rs_paused\<close>. Modelled from the spec: \<^verbatim>\<open>BufferList::take()\<close> is declared outside this
  file; the spec says the buffered bodies are moved into the handoff record, so it
  returns the whole buffer and leaves it empty.
\<close>

definition rs_paused :: "nat \<Rightarrow> psession \<Rightarrow> abort + psession" where
  "rs_paused p s =
     (case lookup_item p (sessionItems s) of
        None \<Rightarrow> Inl AssertFailed
      | Some si \<Rightarrow>
          if si_state si \<noteq> Pausing then Inl AssertFailed
          else
            let s1 = s\<lparr>sessionItems :=
                         update_item p (\<lambda>si. si\<lparr>si_state := Paused\<rparr>) (sessionItems s)\<rparr>;
                allPaused = list_all (\<lambda>si. si_state si = Paused) (sessionItems s1)
            in if allPaused then
                 (let adata = \<lparr>ad_requests = map accept_request_of (sessionItems s1),
                               ad_requestData = (requestData s1)\<lparr>req_body := requestBody s1\<rparr>,
                               ad_haveResponse = True,
                               ad_response = (responseData s1)\<lparr>resp_body := responseBody s1\<rparr>,
                               ad_channelPrefix = channelPrefix s1\<rparr>;
                      s2 = s1\<lparr>requestBody := [], responseBody := []\<rparr>
                  in Inr (emit [FinishedForAccept adata] (cleanup s2)))
               else Inr s1)"

definition rs_errorResponding :: "nat \<Rightarrow> psession \<Rightarrow> abort + psession" where
  "rs_errorResponding p s =
     (case lookup_item p (sessionItems s) of
        None \<Rightarrow> Inl AssertFailed
      | Some si \<Rightarrow>
          if si_state si = Errored then Inl AssertFailed
          else Inr (s\<lparr>sessionItems :=
                        update_item p (\<lambda>si. si\<lparr>si_state := Errored, bytesToWrite := - 1\<rparr>)
                          (sessionItems s)\<rparr>))"

subsection \<open>The public interface\<close>

definition setDefaultSigKey :: "bytes \<Rightarrow> bytes \<Rightarrow> psession \<Rightarrow> psession" where
  "setDefaultSigKey iss key s = s\<lparr>defaultSigIss := iss, defaultSigKey := key\<rparr>"

definition setDefaultUpstreamKey :: "bytes \<Rightarrow> psession \<Rightarrow> psession" where
  "setDefaultUpstreamKey key s = s\<lparr>defaultUpstreamKey := key\<rparr>"

definition setUseXForwardedProtocol :: "bool \<Rightarrow> psession \<Rightarrow> psession" where
  "setUseXForwardedProtocol enabled s = s\<lparr>useXForwardedProtocol := enabled\<rparr>"

definition setXffRules :: "xff_rule \<Rightarrow> xff_rule \<Rightarrow> psession \<Rightarrow> psession" where
  "setXffRules untrusted trusted s = s\<lparr>xffRule := untrusted, xffTrustedRule := trusted\<rparr>"

definition setInspectData :: "inspect_data \<Rightarrow> psession \<Rightarrow> psession" where
  "setInspectData d s = s\<lparr>haveInspectData := True, idata := d\<rparr>"

section \<open>Executions\<close>

text \<open>
  What can happen to a session: a call of its public interface, a signal of one of the
  objects it is connected to, or a change of what such an object shows (the upstream
  response arriving, more request body arriving, the protocol state of a client moving
  on). The byte counts of the \<^verbatim>\<open>bytesWritten\<close> signals are numbers of bytes written.
\<close>

datatype event =
    CallSetDefaultSigKey bytes bytes
  | CallSetDefaultUpstreamKey bytes
  | CallSetUseXForwardedProtocol bool
  | CallSetXffRules xff_rule xff_rule
  | CallSetInspectData inspect_data
  | CallAdd "bytes \<Rightarrow> bytes \<Rightarrow> bool \<Rightarrow> dm_entry option" jwt_env request_session
  | CallCannotAccept
  | SigInRequestReadyRead
  | SigInRequestError
  | SigZReadyRead bool
  | SigZBytesWritten nat
  | SigZError
  | SigRsBytesWritten nat nat bool
  | SigRsFinished nat bool
  | SigRsPaused nat
  | SigRsErrorResponding nat
  | EnvUpstream nat zreq
  | EnvInRequest in_request
  | EnvServerState nat server_state

definition step :: "psession \<Rightarrow> event \<Rightarrow> abort + psession" where
  "step s ev =
     (case ev of
        CallSetDefaultSigKey iss key \<Rightarrow> Inr (setDefaultSigKey iss key s)
      | CallSetDefaultUpstreamKey key \<Rightarrow> Inr (setDefaultUpstreamKey key s)
      | CallSetUseXForwardedProtocol b \<Rightarrow> Inr (setUseXForwardedProtocol b s)
      | CallSetXffRules u t \<Rightarrow> Inr (setXffRules u t s)
      | CallSetInspectData d \<Rightarrow> Inr (setInspectData d s)
      | CallAdd dm env r \<Rightarrow> add dm env r s
      | CallCannotAccept \<Rightarrow> cannotAcceptAll s
      | SigInRequestReadyRead \<Rightarrow> inRequest_readyRead s
      | SigInRequestError \<Rightarrow> inRequest_error s
      | SigZReadyRead del \<Rightarrow> zhttpRequest_readyRead del s
      | SigZBytesWritten n \<Rightarrow> zhttpRequest_bytesWritten (int n) s
      | SigZError \<Rightarrow> zhttpRequest_error s
      | SigRsBytesWritten p n del \<Rightarrow> rs_bytesWritten p (int n) del s
      | SigRsFinished p del \<Rightarrow> rs_finished p del s
      | SigRsPaused p \<Rightarrow> rs_paused p s
      | SigRsErrorResponding p \<Rightarrow> rs_errorResponding p s
      | EnvUpstream h z \<Rightarrow>
          Inr (if zobjs s h = None then s else s\<lparr>zobjs := (zobjs s)(h := Some z)\<rparr>)
      | EnvInRequest ir \<Rightarrow>
          Inr (if inRequest s = None then s else s\<lparr>inRequest := Some ir\<rparr>)
      | EnvServerState p ss \<Rightarrow>
          Inr (s\<lparr>sessionItems := map (\<lambda>si. if rs_ptr (rs si) = p
                                    then si\<lparr>rs := (rs si)\<lparr>rs_serverState := ss\<rparr>\<rparr> else si)
                                  (sessionItems s)\<rparr>))"

definition is_finish :: "effect \<Rightarrow> bool" where
  "is_finish e =
     (case e of FinishedByPassthrough \<Rightarrow> True | FinishedForAccept a \<Rightarrow> True | _ \<Rightarrow> False)"

text \<open>
  Modelled from the spec: the owner of the session, which receives its signals, is not in
  this file. The spec says that the session is destroyed after all client entries finished
  (\<^verbatim>\<open>finishedByPassthrough\<close>) or after the handoff emission (\<^verbatim>\<open>finishedForAccept\<close>); a
  session deleted from inside another signal is gone as well. Nothing happens to a
  session that is gone.
\<close>

definition dissolved :: "psession \<Rightarrow> bool" where
  "dissolved s = (deleted s \<or> list_ex is_finish (trace s))"

fun run :: "psession \<Rightarrow> event list \<Rightarrow> abort + psession" where
  "run s [] = Inr s"
| "run s (ev # evs) = (if dissolved s then Inr s else bind_r (step s ev) (\<lambda>s'. run s' evs))"

text \<open>The events one after the other, whether or not the owner has destroyed the session:
  what the code of the session alone does.\<close>

fun execute :: "psession \<Rightarrow> event list \<Rightarrow> abort + psession" where
  "execute s [] = Inr s"
| "execute s (ev # evs) = bind_r (step s ev) (\<lambda>s'. execute s' evs)"

section \<open>Reference results and example sessions\<close>

text \<open>What \<^verbatim>\<open>rejectAll\<close> makes of an entry: every entry that is not \<open>Errored\<close> becomes
  \<open>Responded\<close> with the sentinel byte count.\<close>

definition rejected :: "session_item \<Rightarrow> session_item" where
  "rejected si =
     (if si_state si \<noteq> Errored then si\<lparr>si_state := Responded, bytesToWrite := - 1\<rparr> else si)"

definition finished_item :: "session_item \<Rightarrow> session_item" where
  "finished_item si =
     (if si_state si = ItemResponding then si\<lparr>si_state := Responded\<rparr> else si)"

definition xff0 :: xff_rule where
  "xff0 = \<lparr>xff_truncate = - 1, xff_append = False\<rparr>"

definition client :: "nat \<Rightarrow> request_session" where
  "client p = \<lparr>rs_ptr = p, rs_rid = (''m2'', ''id''), rs_isHttps = False,
     rs_peerAddress = ''10.0.0.1'', rs_autoCrossOrigin = False, rs_jsonpCallback = [],
     rs_isRetry = False,
     rs_requestData = \<lparr>req_method = ''GET'',
        req_uri = \<lparr>uri_scheme = ''http'', uri_host = ''example.com'', uri_encodedPath = ''/x''\<rparr>,
        req_headers = [(''Connection'', ''close'')], req_body = []\<rparr>,
     rs_request_avail = ''ab'', rs_request_isInputFinished = True,
     rs_serverState = \<lparr>inSeq = 1, outSeq = 2, outCredits = 3, userData = []\<rparr>\<rparr>"

definition upstream_response :: "bytes \<Rightarrow> zreq" where
  "upstream_response ct = \<lparr>z_responseCode = 200, z_responseReason = ''OK'',
     z_responseHeaders = [(''content-type'', ct)], z_avail = ''{}'', z_isFinished = True,
     z_errorCondition = ErrorOther 0\<rparr>"

text \<open>A session in state \<open>Requesting\<close> with one client and the upstream request 0.\<close>

definition requesting :: "bool \<Rightarrow> zreq \<Rightarrow> psession" where
  "requesting b z = (Private b xff0)
     \<lparr>state := Requesting, zhttpRequest := Some 0, zobjs := (\<lambda>h. if h = 0 then Some z else None),
      znext := 1, sessionItems := [SessionItem (client 7)]\<rparr>"

definition target_a :: target where
  "target_a = \<lparr>t_host = ''a'', t_port = 80, t_ssl = False, t_trusted = False, t_insecure = False\<rparr>"

definition target_b :: target where
  "target_b = \<lparr>t_host = ''b'', t_port = 80, t_ssl = False, t_trusted = False, t_insecure = False\<rparr>"

text \<open>A route map with one route to the targets a and b, and a token codec.\<close>

definition route_ab :: "bytes \<Rightarrow> bytes \<Rightarrow> bool \<Rightarrow> dm_entry option" where
  "route_ab host path https =
     Some \<lparr>e_sigIss = [], e_sigKey = [], e_prefix = ''ch-'', e_targets = [target_a, target_b]\<rparr>"

definition env0 :: jwt_env where
  "env0 = fixed_env QInvalid 1700000000"

text \<open>An upstream request that could not connect.\<close>

definition connect_failed :: zreq where
  "connect_failed = new_zreq\<lparr>z_errorCondition := ErrorConnect\<rparr>"

text \<open>A client is attached, and the request to the first target fails to connect.\<close>

definition retry_run :: "abort + psession" where
  "retry_run = run (Private True xff0)
     [CallAdd route_ab env0 (client 7), EnvUpstream 0 connect_failed, SigZError]"

text \<open>A session whose request to the first target could not connect, with the target b left.\<close>

definition retrying :: psession where
  "retrying = (requesting True connect_failed)\<lparr>targets := [target_b]\<rparr>"

text \<open>The handoff records a session has emitted.\<close>

definition handoffs :: "effect list \<Rightarrow> accept_data list" where
  "handoffs t = concat (map (\<lambda>e. case e of FinishedForAccept a \<Rightarrow> [a] | _ \<Rightarrow> []) t)"

definition handoffs_of :: "abort + psession \<Rightarrow> accept_data list" where
  "handoffs_of r = (case r of Inl e \<Rightarrow> [] | Inr s \<Rightarrow> handoffs (trace s))"



section \<open>Invariants of executions\<close>

text \<open>Effects that are neither \<^verbatim>\<open>addNotAllowed\<close> nor one of the two finish signals.\<close>

definition quiet :: "effect list \<Rightarrow> bool" where
  "quiet es = list_all (\<lambda>e. e \<noteq> AddNotAllowed \<and> \<not> is_finish e) es"

text \<open>An entry that has nothing to write and is not being responded to.\<close>

definition idle_item :: "session_item \<Rightarrow> bool" where
  "idle_item si = (bytesToWrite si \<le> 0 \<and> si_state si \<noteq> ItemResponding)"

text \<open>
  What holds of every session an execution reaches: a session in state \<open>Stopped\<close> has no
  request objects, and before the response has started all entries are idle.
\<close>

definition inv :: "psession \<Rightarrow> bool" where
  "inv s = ((state s \<noteq> Stopped \<or> (inRequest s = None \<and> zhttpRequest s = None))
          \<and> ((state s \<noteq> Stopped \<and> state s \<noteq> Requesting) \<or> list_all idle_item (sessionItems s)))"

text \<open>How one operation may change a session, the finish signals apart.\<close>

definition evolves0 :: "psession \<Rightarrow> psession \<Rightarrow> bool" where
  "evolves0 s s' =
     ((state s = Stopped \<or> state s' \<noteq> Stopped)
      \<and> (addAllowed s \<or> \<not> addAllowed s')
      \<and> count_list (trace s') AddNotAllowed
          = count_list (trace s) AddNotAllowed + (if addAllowed s \<and> \<not> addAllowed s' then 1 else 0)
      \<and> (state s = Stopped \<or> buffering s \<or> \<not> buffering s')
      \<and> (\<not> inv s \<or> \<not> buffering s \<or> buffering s' \<or> state s' \<noteq> Stopped)
      \<and> (\<not> inv s \<or> inv s')
      \<and> acceptTypes s' = acceptTypes s)"

definition evolves :: "psession \<Rightarrow> psession \<Rightarrow> bool" where
  "evolves s s' = (evolves0 s s' \<and> filter is_finish (trace s') = filter is_finish (trace s))"

text \<open>How one step of an execution may change a session: at most one finish signal is
  added to the trace.\<close>

definition advances :: "psession \<Rightarrow> psession \<Rightarrow> bool" where
  "advances s s' =
     (evolves0 s s'
      \<and> (filter is_finish (trace s') = filter is_finish (trace s)
         \<or> (\<exists>e. is_finish e \<and> filter is_finish (trace s') = filter is_finish (trace s) @ [e])))"

text \<open>
  Two executions from a new session. In the first the origin answers with a GRIP instruct
  and the client pauses: the session hands off. In the second the origin answers with a
  plain, complete response.
\<close>

definition handoff_run :: "abort + psession" where
  "handoff_run = run (Private True xff0)
     [CallAdd route_ab env0 (client 7),
      EnvUpstream 0 (upstream_response ''application/grip-instruct; charset=utf-8''),
      SigZReadyRead False, SigRsPaused 7]"

definition the_session :: "abort + psession \<Rightarrow> psession" where
  "the_session r = (case r of Inr s \<Rightarrow> s | Inl e \<Rightarrow> Private True xff0)"

definition succeeded :: "abort + psession \<Rightarrow> bool" where
  "succeeded r = (case r of Inr s \<Rightarrow> True | Inl e \<Rightarrow> False)"

definition plain_events :: "event list" where
  "plain_events = [CallAdd route_ab env0 (client 7), EnvUpstream 0 (upstream_response ''text/plain'')]"

definition before_response :: psession where
  "before_response = the_session (execute (Private True xff0) plain_events)"

definition after_response :: psession where
  "after_response = the_session (step before_response (SigZReadyRead False))"

text \<open>A session with other inspect data.\<close>

definition with_idata :: "bool \<Rightarrow> inspect_data \<Rightarrow> psession \<Rightarrow> psession" where
  "with_idata a d s = s\<lparr>haveInspectData := a, idata := d\<rparr>"

text \<open>An execution without its calls of \<^verbatim>\<open>setInspectData\<close>.\<close>

definition sets_inspect_data :: "event \<Rightarrow> bool" where
  "sets_inspect_data ev = (case ev of CallSetInspectData d \<Rightarrow> True | _ \<Rightarrow> False)"

definition without_inspect_data :: "event list \<Rightarrow> event list" where
  "without_inspect_data evs = filter (\<lambda>ev. \<not> sets_inspect_data ev) evs"

definition trace_of :: "abort + psession \<Rightarrow> abort + effect list" where
  "trace_of r = map_sum id trace r"

definition handoff_events :: "event list" where
  "handoff_events =
     [CallAdd route_ab env0 (client 7),
      EnvUpstream 0 (upstream_response ''application/grip-instruct; charset=utf-8''),
      SigZReadyRead False, SigRsPaused 7]"

definition inspect_runs :: "(abort + psession) \<times> (abort + psession)" where
  "inspect_runs =
     (execute (Private True xff0) (CallSetInspectData ''inspect-A'' # handoff_events),
      execute (Private True xff0) (CallSetInspectData ''inspect-B'' # handoff_events))"




section \<open>Token validation\<close>

lemma validate_token_signed:
  "validate_token env token key \<longleftrightarrow>
     (\<exists>m. jwt_decode env token key = QMap m \<and>
          0 < sint (toInt env (qmap_value m ''exp'')) \<and>
          sint (toTime_t env) < sint (toInt env (qmap_value m ''exp'')))"
  by (cases "jwt_decode env token key")
     (auto simp: validate_token_def isValid_def isMap_def toMap_def Let_def)

lemma validate_token_before_2038:
  assumes "uint (toTime_t env) < 2 ^ 31"
  shows "validate_token env token key \<longleftrightarrow>
     (\<exists>m. jwt_decode env token key = QMap m \<and>
          0 < sint (toInt env (qmap_value m ''exp'')) \<and>
          uint (toTime_t env) < sint (toInt env (qmap_value m ''exp'')))"
proof -
  have "- (2 ^ 31) \<le> uint (toTime_t env)"
    by (rule order_trans [of _ 0]) simp_all
  with assms have "signed_take_bit 31 (uint (toTime_t env)) = uint (toTime_t env)"
    by (rule signed_take_bit_int_eq_self [rotated])
  then have "sint (toTime_t env) = uint (toTime_t env)"
    by (simp add: sint_uint)
  then show ?thesis
    by (simp add: validate_token_signed)
qed

text \<open>
  C9. \<open>validate_token\<close> should return true only for a claim whose \<open>exp\<close> is strictly
  greater than the current epoch second. At the epoch second \<open>2^31\<close> (19 January 2038)
  the cast of the clock to \<^verbatim>\<open>int\<close> is negative, and a token whose \<open>exp\<close> is 1, long
  expired, is accepted.
\<close>

theorem validate_token_accepts_expired_after_2038:
  "validate_token (fixed_env (QMap [(''exp'', QUInt 1)]) 2147483648) ''token'' ''key''
   \<and> uint (1 :: 32 word) \<le> uint (2147483648 :: 32 word)"
  by (simp add: validate_token_def fixed_env_def number_toInt_def isValid_def isMap_def
      toMap_def qmap_value_def)

theorem validate_token_accepts_expired_after_2038_witness:
  "validate_token (fixed_env (QMap [(''exp'', QUInt 1)]) 2147483648) ''token'' ''key'' = True"
  using validate_token_accepts_expired_after_2038 by simp

section \<open>Loops over the client entries\<close>

lemma bind_r_Inl [simp]: "bind_r (Inl e) f = Inl e"
  by (simp add: bind_r_def)

lemma bind_r_Inr [simp]: "bind_r (Inr x) f = f x"
  by (simp add: bind_r_def)

lemma readBody_take_drop:
  "readBody_data n avail = take (nat n) avail"
  "readBody_rest n avail = drop (nat n) avail"
  by (auto simp: readBody_data_def readBody_rest_def size_of_def)

lemma bind_r_eq_Inr: "bind_r r f = Inr y \<longleftrightarrow> (\<exists>x. r = Inr x \<and> f x = Inr y)"
  by (cases r) simp_all

lemma foreach_total:
  "(\<And>x. x \<in> set xs \<Longrightarrow> f x = Inr (g x, e x)) \<Longrightarrow>
   foreach f xs = Inr (map g xs, concat (map e xs))"
  by (induction xs) simp_all

lemma foreach_length: "foreach f xs = Inr (ys, es) \<Longrightarrow> length ys = length xs"
proof (induction xs arbitrary: ys es)
  case Nil
  then show ?case by simp
next
  case (Cons x xs)
  then show ?case
    by (auto simp: bind_r_eq_Inr)
qed

lemma foreach_items_total:
  "(\<And>x. x \<in> set (sessionItems s) \<Longrightarrow> f x = Inr (g x, e x)) \<Longrightarrow>
   foreach_items f s =
     Inr (s\<lparr>sessionItems := map g (sessionItems s),
            trace := trace s @ concat (map e (sessionItems s))\<rparr>)"
  by (simp add: foreach_items_def foreach_total)

lemma rejectAll_ok:
  assumes "list_all (\<lambda>si. si_state si = Errored \<or> si_state si = WaitingForResponse) (sessionItems s)"
  shows "rejectAll c r m s =
     Inr (s\<lparr>sessionItems := map rejected (sessionItems s),
            trace := trace s @ concat (map (\<lambda>si. if si_state si \<noteq> Errored
                        then [RsRespondError (rs_ptr (rs si)) c r m] else []) (sessionItems s))\<rparr>)"
  unfolding rejectAll_def
  apply (rule foreach_items_total)
  using assms by (auto simp: reject_body_def rejected_def list_all_iff)

lemma bare_content_type_takeWhile:
  "bare_content_type ct = takeWhile (\<lambda>c. c \<noteq> CHR '';'') ct"
  by (auto simp: bare_content_type_def indexOf_def mid_def Let_def takeWhile_eq_take [symmetric]
      intro: takeWhile_eq_all_conv [THEN iffD2, symmetric])

lemma deref_z_eq_Inr:
  "deref_z s = Inr (h, z) \<longleftrightarrow> zhttpRequest s = Some h \<and> zobjs s h = Some z"
  by (auto simp: deref_z_def split: option.splits)

lemma deref_zI: "zhttpRequest s = Some h \<Longrightarrow> zobjs s h = Some z \<Longrightarrow> deref_z s = Inr (h, z)"
  by (simp add: deref_z_eq_Inr)


lemma finishAll_eq:
  assumes "list_all (\<lambda>si. si_state si \<noteq> WaitingForResponse) (sessionItems s)"
  shows "foreach_items finish_body s =
     Inr (s\<lparr>sessionItems := map finished_item (sessionItems s),
            trace := trace s @ concat (map (\<lambda>si. if si_state si = ItemResponding
                        then [RsEndResponseBody (rs_ptr (rs si))] else []) (sessionItems s))\<rparr>)"
  apply (rule foreach_items_total)
  using assms by (auto simp: finish_body_def finished_item_def list_all_iff)

lemma catch_up_all_eq:
  "foreach_items (catch_up rd b) s =
     Inr (s\<lparr>sessionItems := map (\<lambda>si. si\<lparr>si_state := ItemResponding,
              bytesToWrite := (if b \<noteq> [] then bytesToWrite si + size_of b
                               else bytesToWrite si)\<rparr>) (sessionItems s),
            trace := trace s @ concat (map (\<lambda>si.
              [RsStartResponse (rs_ptr (rs si)) (resp_code rd) (resp_reason rd) (resp_headers rd)]
              @ (if b \<noteq> [] then [RsWriteResponseBody (rs_ptr (rs si)) b] else []))
              (sessionItems s))\<rparr>)"
  by (rule foreach_items_total) (simp add: catch_up_def)


lemma check_Responding:
  assumes "state s = Responding" "deref_z s = Inr (h, z)"
    "list_all (\<lambda>si. si_state si \<noteq> WaitingForResponse) (sessionItems s)"
  shows "\<exists>s'. checkIncomingResponseFinished s = Inr s' \<and> state s' = Responding"
  using assms
  by (simp add: checkIncomingResponseFinished_def emit_def finishAll_eq Let_def)

section \<open>The first upstream readyRead\<close>



lemma readyRead_responding:
  assumes "state s = Requesting" and "deref_z s = Inr (h, z)"
    and "passToUpstream s
       \<or> bare_content_type (headers_get (z_responseHeaders z) ''Content-Type'') \<notin> acceptTypes s"
  shows "\<exists>s'. zhttpRequest_readyRead del s = Inr s' \<and> state s' = Responding"
proof -
  have r: "\<exists>s'. bind_r (foreach_items (catch_up rd b) s0) checkIncomingResponseFinished = Inr s'
          \<and> state s' = Responding"
    if "state s0 = Responding" "deref_z s0 = Inr (h, z')" for rd b s0 z'
    using that
    by (simp add: catch_up_all_eq)
       (rule check_Responding [where h = h], simp_all add: deref_z_eq_Inr list_all_iff)
  from assms(2) have zs: "zhttpRequest s = Some h" "zobjs s h = Some z"
    by (simp_all add: deref_z_eq_Inr)
  show ?thesis
    using assms zs
    by (auto simp: zhttpRequest_readyRead_def emit_def Let_def intro!: r deref_zI)
qed






text \<open>
  C10. The accept set of a session is the one its constructor builds, the single entry
  \<open>application/grip-instruct\<close>, and membership of the content type cut at the first
  semicolon is equality of byte strings: whenever the part of the Content-Type value
  before the first semicolon is not exactly that string, the first readyRead takes the
  session to \<open>Responding\<close>. This is so for a value that differs in letter case and for a
  value with a space before the semicolon.
\<close>

theorem accept_set_exact_match:
  assumes "state s = Requesting" and "deref_z s = Inr (h, z)"
    and "acceptTypes s = acceptTypes (Private b0 xr0)"
    and "takeWhile (\<lambda>c. c \<noteq> CHR '';'') (headers_get (z_responseHeaders z) ''Content-Type'')
           \<noteq> ''application/grip-instruct''"
  shows "\<exists>s'. zhttpRequest_readyRead del s = Inr s' \<and> state s' = Responding"
proof -
  have "bare_content_type (headers_get (z_responseHeaders z) ''Content-Type'') \<notin> acceptTypes s"
    using assms(3,4) by (simp add: bare_content_type_takeWhile Private_def)
  then have "passToUpstream s
      \<or> bare_content_type (headers_get (z_responseHeaders z) ''Content-Type'') \<notin> acceptTypes s"
    by (rule disjI2)
  with assms(1,2) show ?thesis
    by (rule readyRead_responding)
qed

theorem accept_set_exact_match_witness:
  "(\<exists>s'. zhttpRequest_readyRead False
       (requesting True (upstream_response ''Application/GRIP-Instruct'')) = Inr s'
       \<and> state s' = Responding)
   \<and> (\<exists>s'. zhttpRequest_readyRead False
       (requesting True (upstream_response ''application/grip-instruct ; charset=utf-8'')) = Inr s'
       \<and> state s' = Responding)"
  using accept_set_exact_match
    [of "requesting True (upstream_response ''Application/GRIP-Instruct'')" 0
        "upstream_response ''Application/GRIP-Instruct''" True xff0 False]
    accept_set_exact_match
    [of "requesting True (upstream_response ''application/grip-instruct ; charset=utf-8'')" 0
        "upstream_response ''application/grip-instruct ; charset=utf-8''" True xff0 False]
  by (simp add: requesting_def Private_def deref_z_def upstream_response_def headers_get_def
      name_eq_def lower_char_def)

section \<open>Upstream errors and retry\<close>

lemma foreach_items_shape:
  "foreach_items f s = Inr s' \<Longrightarrow> \<exists>sis es. s' = s\<lparr>sessionItems := sis, trace := trace s @ es\<rparr>"
  by (auto simp: foreach_items_def bind_r_eq_Inr)

lemma rejectAll_keeps_targets:
  assumes "rejectAll c r m s = Inr s'"
  shows "targets s' = targets s \<and> znext s' = znext s \<and> zhttpRequest s' = zhttpRequest s"
  using foreach_items_shape [OF assms [unfolded rejectAll_def]] by auto

lemma destroyAll_keeps_targets:
  assumes "destroyAll s = Inr s'"
  shows "targets s' = targets s \<and> znext s' = znext s \<and> zhttpRequest s' = zhttpRequest s"
proof -
  from assms have "foreach_items destroy_body s = Inr s'"
    by (simp add: destroyAll_def split: if_splits)
  from foreach_items_shape [OF this] show ?thesis by auto
qed

lemma tryNextTarget_consumes:
  assumes "targets s = t # rest"
  shows "\<exists>s'. tryNextTarget s = Inr s' \<and> targets s' = rest
           \<and> zhttpRequest s' = Some (znext s) \<and> znext s' = Suc (znext s)
           \<and> ZCreateRequest (znext s) \<in> set (trace s')
           \<and> ZSetConnectHost (znext s) (t_host t) \<in> set (trace s')"
  using assms
  by (auto simp: tryNextTarget_def emit_def Let_def split: option.splits)

lemma error_no_retry:
  assumes "deref_z s = Inr (h, z)"
    and "\<not> (state s = Requesting
            \<and> z_errorCondition z \<in> {ErrorConnect, ErrorConnectTimeout, ErrorTls})"
    and "zhttpRequest_error s = Inr s'"
  shows "targets s' = targets s \<and> znext s' = znext s \<and> zhttpRequest s' = zhttpRequest s"
proof (cases "z_errorCondition z")
  case ErrorLengthRequired
  with assms show ?thesis
    by (auto simp: zhttpRequest_error_def split: if_splits
        dest: rejectAll_keeps_targets destroyAll_keeps_targets)
next
  case ErrorConnect
  with assms show ?thesis
    by (auto simp: zhttpRequest_error_def split: if_splits dest: destroyAll_keeps_targets)
next
  case ErrorConnectTimeout
  with assms show ?thesis
    by (auto simp: zhttpRequest_error_def split: if_splits dest: destroyAll_keeps_targets)
next
  case ErrorTls
  with assms show ?thesis
    by (auto simp: zhttpRequest_error_def split: if_splits dest: destroyAll_keeps_targets)
next
  case (ErrorOther n)
  with assms show ?thesis
    by (auto simp: zhttpRequest_error_def split: if_splits
        dest: rejectAll_keeps_targets destroyAll_keeps_targets)
qed

text \<open>
  C3. When the upstream request reports an error: \<^verbatim>\<open>tryNextTarget\<close> is run if and only if
  the session is in state \<open>Requesting\<close> and the error is \<open>Connect\<close>, \<open>ConnectTimeout\<close> or
  \<open>Tls\<close>; in every other case the target list, the current upstream request and the
  number of upstream requests created stay as they are. \<^verbatim>\<open>tryNextTarget\<close> takes the first
  target off the list and starts a new upstream request for it, and with an empty list it
  rejects all with 502 "Bad Gateway", "Error while proxying to origin.". In \<open>Requesting\<close> or
  \<open>Accepting\<close>, \<open>LengthRequired\<close> rejects all with 411 and any other error rejects all with
  502 "Error while proxying to origin."; rejecting all means that every entry that is not
  \<open>Errored\<close> is called with \<open>respondError\<close> and becomes \<open>Responded\<close>.
\<close>

theorem upstream_error_retry:
  assumes "deref_z s = Inr (h, z)"
  shows
    "(state s = Requesting \<and> z_errorCondition z \<in> {ErrorConnect, ErrorConnectTimeout, ErrorTls}
        \<longrightarrow> zhttpRequest_error s = tryNextTarget s)
     \<and> (\<not> (state s = Requesting
             \<and> z_errorCondition z \<in> {ErrorConnect, ErrorConnectTimeout, ErrorTls})
        \<longrightarrow> (\<forall>s'. zhttpRequest_error s = Inr s' \<longrightarrow>
               targets s' = targets s \<and> znext s' = znext s \<and> zhttpRequest s' = zhttpRequest s))
     \<and> (\<forall>t rest. targets s = t # rest \<longrightarrow>
          (\<exists>s'. tryNextTarget s = Inr s' \<and> targets s' = rest
             \<and> zhttpRequest s' = Some (znext s) \<and> znext s' = Suc (znext s)
             \<and> ZCreateRequest (znext s) \<in> set (trace s')
             \<and> ZSetConnectHost (znext s) (t_host t) \<in> set (trace s')))
     \<and> (targets s = [] \<longrightarrow>
          tryNextTarget s = rejectAll 502 ''Bad Gateway'' ''Error while proxying to origin.'' s)
     \<and> ((state s = Requesting \<or> state s = Accepting)
          \<and> z_errorCondition z = ErrorLengthRequired \<longrightarrow>
          zhttpRequest_error s
            = rejectAll 411 ''Length Required'' ''Must provide Content-Length header.'' s)
     \<and> ((state s = Requesting \<or> state s = Accepting)
          \<and> z_errorCondition z
               \<notin> {ErrorLengthRequired, ErrorConnect, ErrorConnectTimeout, ErrorTls} \<longrightarrow>
          zhttpRequest_error s
            = rejectAll 502 ''Bad Gateway'' ''Error while proxying to origin.'' s)
     \<and> (list_all (\<lambda>si. si_state si = Errored \<or> si_state si = WaitingForResponse)
           (sessionItems s) \<longrightarrow>
          (\<forall>c r m. rejectAll c r m s =
             Inr (s\<lparr>sessionItems := map rejected (sessionItems s),
                    trace := trace s @ concat (map (\<lambda>si. if si_state si \<noteq> Errored
                       then [RsRespondError (rs_ptr (rs si)) c r m] else [])
                       (sessionItems s))\<rparr>)))"
proof (intro conjI impI allI)
  assume "state s = Requesting
    \<and> z_errorCondition z \<in> {ErrorConnect, ErrorConnectTimeout, ErrorTls}"
  with assms show "zhttpRequest_error s = tryNextTarget s"
    by (auto simp: zhttpRequest_error_def)
next
  fix s'
  assume "\<not> (state s = Requesting
            \<and> z_errorCondition z \<in> {ErrorConnect, ErrorConnectTimeout, ErrorTls})"
    and "zhttpRequest_error s = Inr s'"
  from error_no_retry [OF assms this]
  show "targets s' = targets s" and "znext s' = znext s" and "zhttpRequest s' = zhttpRequest s"
    by simp_all
next
  fix t rest
  assume "targets s = t # rest"
  then show "\<exists>s'. tryNextTarget s = Inr s' \<and> targets s' = rest
             \<and> zhttpRequest s' = Some (znext s) \<and> znext s' = Suc (znext s)
             \<and> ZCreateRequest (znext s) \<in> set (trace s')
             \<and> ZSetConnectHost (znext s) (t_host t) \<in> set (trace s')"
    by (rule tryNextTarget_consumes)
next
  assume "targets s = []"
  then show "tryNextTarget s = rejectAll 502 ''Bad Gateway'' ''Error while proxying to origin.'' s"
    by (simp add: tryNextTarget_def)
next
  assume "(state s = Requesting \<or> state s = Accepting)
          \<and> z_errorCondition z = ErrorLengthRequired"
  with assms show "zhttpRequest_error s
            = rejectAll 411 ''Length Required'' ''Must provide Content-Length header.'' s"
    by (auto simp: zhttpRequest_error_def)
next
  assume "(state s = Requesting \<or> state s = Accepting)
          \<and> z_errorCondition z
               \<notin> {ErrorLengthRequired, ErrorConnect, ErrorConnectTimeout, ErrorTls}"
  with assms show "zhttpRequest_error s
            = rejectAll 502 ''Bad Gateway'' ''Error while proxying to origin.'' s"
    by (cases "z_errorCondition z") (auto simp: zhttpRequest_error_def)
next
  fix c r m
  assume "list_all (\<lambda>si. si_state si = Errored \<or> si_state si = WaitingForResponse)
           (sessionItems s)"
  then show "rejectAll c r m s =
             Inr (s\<lparr>sessionItems := map rejected (sessionItems s),
                    trace := trace s @ concat (map (\<lambda>si. if si_state si \<noteq> Errored
                       then [RsRespondError (rs_ptr (rs si)) c r m] else [])
                       (sessionItems s))\<rparr>)"
    by (rule rejectAll_ok)
qed

theorem upstream_error_retry_witness:
  "deref_z retrying = Inr (0, connect_failed)
   \<and> state retrying = Requesting
   \<and> z_errorCondition connect_failed = ErrorConnect
   \<and> targets retrying = [target_b]
   \<and> zhttpRequest_error retrying = tryNextTarget retrying
   \<and> (\<exists>s'. tryNextTarget retrying = Inr s'
         \<and> targets s' = [] \<and> zhttpRequest s' = Some (znext retrying)
         \<and> ZSetConnectHost (znext retrying) (t_host target_b) \<in> set (trace s'))"
proof -
  have d: "deref_z retrying = Inr (0, connect_failed)"
    by (simp add: retrying_def requesting_def deref_z_def)
  have st: "state retrying = Requesting"
    by (simp add: retrying_def requesting_def)
  have e: "z_errorCondition connect_failed = ErrorConnect"
    by (simp add: connect_failed_def)
  have t: "targets retrying = [target_b]"
    by (simp add: retrying_def)
  note u = upstream_error_retry [OF d]
  from u st e have a: "zhttpRequest_error retrying = tryNextTarget retrying"
    by simp
  from u t have b: "\<exists>s'. tryNextTarget retrying = Inr s' \<and> targets s' = []
         \<and> zhttpRequest s' = Some (znext retrying) \<and> znext s' = Suc (znext retrying)
         \<and> ZCreateRequest (znext retrying) \<in> set (trace s')
         \<and> ZSetConnectHost (znext retrying) (t_host target_b) \<in> set (trace s')"
    by blast
  from d st e t a b show ?thesis
    by blast
qed

text \<open>
  C4. At most one upstream request should exist at a time, the previous one being released
  before a retry creates the next. With the targets a and b and a client attached, the
  request to a fails to connect: \<^verbatim>\<open>zhttpRequest_error\<close> calls \<^verbatim>\<open>tryNextTarget\<close>, which
  overwrites \<^verbatim>\<open>zhttpRequest\<close> with the request it creates. The failed request 0 is never
  deleted: afterwards the requests 0 and 1 both exist.
\<close>

theorem retry_keeps_failed_request:
  "(case retry_run of
      Inr s \<Rightarrow> zhttpRequest s = Some 1 \<and> zobjs s 0 = Some connect_failed
              \<and> zobjs s 1 = Some new_zreq \<and> ZDelete 0 \<notin> set (trace s) \<and> targets s = []
    | Inl e \<Rightarrow> False)"
  by code_simp

theorem retry_keeps_failed_request_witness:
  "(case retry_run of
      Inr s \<Rightarrow> zobjs s 0 \<noteq> None \<and> zobjs s 1 \<noteq> None
    | Inl e \<Rightarrow> False)"
proof (cases retry_run)
  case (Inl e)
  from retry_keeps_failed_request [unfolded Inl] show ?thesis
    by simp
next
  case (Inr s)
  from retry_keeps_failed_request [unfolded Inr] show ?thesis
    unfolding Inr by simp
qed

section \<open>The handoff\<close>


lemma rs_paused_not_all_paused:
  assumes "lookup_item p (sessionItems s) = Some si" and "si_state si = Pausing"
    and "\<not> list_all (\<lambda>si. si_state si = Paused)
           (update_item p (\<lambda>si. si\<lparr>si_state := Paused\<rparr>) (sessionItems s))"
  shows "rs_paused p s =
     Inr (s\<lparr>sessionItems := update_item p (\<lambda>si. si\<lparr>si_state := Paused\<rparr>) (sessionItems s)\<rparr>)"
  using assms by (simp add: rs_paused_def Let_def)



section \<open>Each operation keeps the invariants\<close>

lemma evolves_refl: "evolves s s"
  by (simp add: evolves_def evolves0_def)

lemma evolves0_trans: "evolves0 s s1 \<Longrightarrow> evolves0 s1 s2 \<Longrightarrow> evolves0 s s2"
  unfolding evolves0_def by (elim conjE, intro conjI) (auto split: if_splits)

lemma evolves_trans: "evolves s s1 \<Longrightarrow> evolves s1 s2 \<Longrightarrow> evolves s s2"
  unfolding evolves_def using evolves0_trans by auto

lemma quiet_append [simp]: "quiet (xs @ ys) \<longleftrightarrow> quiet xs \<and> quiet ys"
  by (simp add: quiet_def)

lemma quiet_Nil [simp]: "quiet []"
  by (simp add: quiet_def)

lemma quiet_count: "quiet es \<Longrightarrow> count_list es AddNotAllowed = 0"
  by (induction es) (auto simp: quiet_def)

lemma quiet_filter: "quiet es \<Longrightarrow> filter is_finish es = []"
  by (induction es) (auto simp: quiet_def)

lemma foreach_quiet:
  assumes "foreach f xs = Inr (ys, es)"
    and "\<And>x y es. f x = Inr (y, es) \<Longrightarrow> quiet es \<and> (Q \<longrightarrow> idle_item x \<longrightarrow> idle_item y)"
  shows "quiet es \<and> (Q \<longrightarrow> list_all idle_item xs \<longrightarrow> list_all idle_item ys)"
  using assms(1)
proof (induction xs arbitrary: ys es)
  case Nil
  then show ?case by simp
next
  case (Cons x xs)
  from Cons.prems obtain y e1 ys' e2 where
    f: "f x = Inr (y, e1)" and r: "foreach f xs = Inr (ys', e2)"
    and eq: "ys = y # ys'" "es = e1 @ e2"
    by (auto simp: bind_r_eq_Inr)
  from assms(2) [OF f] Cons.IH [OF r] eq show ?case
    by simp
qed

lemma evolves_items:
  assumes "quiet es"
    and "(state s = Stopped \<or> state s = Requesting) \<longrightarrow> list_all idle_item (sessionItems s)
          \<longrightarrow> list_all idle_item sis"
  shows "evolves s (s\<lparr>sessionItems := sis, trace := trace s @ es\<rparr>)"
  using assms
  by (auto simp: evolves_def evolves0_def inv_def quiet_count quiet_filter)

lemma foreach_items_evolves:
  assumes "foreach_items f s = Inr s'"
    and "\<And>x y es. f x = Inr (y, es) \<Longrightarrow>
           quiet es \<and> (state s = Stopped \<or> state s = Requesting \<longrightarrow> idle_item x \<longrightarrow> idle_item y)"
  shows "evolves s s'"
proof -
  from assms(1) obtain sis es where
    f: "foreach f (sessionItems s) = Inr (sis, es)"
    and s': "s' = s\<lparr>sessionItems := sis, trace := trace s @ es\<rparr>"
    by (auto simp: foreach_items_def bind_r_eq_Inr)
  from foreach_quiet [OF f, of "state s = Stopped \<or> state s = Requesting"] assms(2)
  have "quiet es \<and> (state s = Stopped \<or> state s = Requesting
          \<longrightarrow> list_all idle_item (sessionItems s) \<longrightarrow> list_all idle_item sis)"
    by blast
  then show ?thesis
    unfolding s' by (intro evolves_items) auto
qed

lemma rejectAll_evolves: "rejectAll c r m s = Inr s' \<Longrightarrow> evolves s s'"
  unfolding rejectAll_def
  by (erule foreach_items_evolves)
     (auto simp: reject_body_def quiet_def is_finish_def idle_item_def split: if_splits)

lemma cannotAcceptAll_evolves: "cannotAcceptAll s = Inr s' \<Longrightarrow> evolves s s'"
  unfolding cannotAcceptAll_def
  by (erule foreach_items_evolves)
     (auto simp: cannotAccept_body_def quiet_def is_finish_def idle_item_def split: if_splits)

lemma destroyAll_evolves: "destroyAll s = Inr s' \<Longrightarrow> evolves s s'"
  unfolding destroyAll_def
  by (auto split: if_splits elim!: foreach_items_evolves
      simp: destroy_body_def quiet_def is_finish_def idle_item_def)

lemma emit_fields [simp]:
  "state (emit es s) = state s" "addAllowed (emit es s) = addAllowed s"
  "buffering (emit es s) = buffering s" "acceptTypes (emit es s) = acceptTypes s"
  "sessionItems (emit es s) = sessionItems s" "inRequest (emit es s) = inRequest s"
  "zhttpRequest (emit es s) = zhttpRequest s" "trace (emit es s) = trace s @ es"
  "deleted (emit es s) = deleted s" "zobjs (emit es s) = zobjs s"
  by (simp_all add: emit_def)

lemma evolves_genI:
  assumes "state s' = state s \<or> (state s = Stopped \<and> state s' = Requesting)
            \<or> (state s' \<noteq> Stopped \<and> state s' \<noteq> Requesting)"
    and "addAllowed s \<or> \<not> addAllowed s'"
    and "trace s' = trace s @ es"
    and "count_list es AddNotAllowed = (if addAllowed s \<and> \<not> addAllowed s' then 1 else 0)"
    and "filter is_finish es = []"
    and "state s = Stopped \<or> buffering s \<or> \<not> buffering s'"
    and "\<not> inv s \<or> buffering s' \<or> \<not> buffering s \<or> state s' \<noteq> Stopped"
    and "acceptTypes s' = acceptTypes s"
    and "state s' = Stopped \<longrightarrow> (inRequest s' = inRequest s \<or> inRequest s' = None)
           \<and> (zhttpRequest s' = zhttpRequest s \<or> zhttpRequest s' = None)"
    and "state s' = Stopped \<or> state s' = Requesting \<longrightarrow>
           list_all idle_item (sessionItems s) \<longrightarrow> list_all idle_item (sessionItems s')"
  shows "evolves s s'"
proof -
  have "inv s \<Longrightarrow> inv s'"
    using assms(1,9,10) unfolding inv_def by metis
  then show ?thesis
    using assms(1-8)
    by (auto simp: evolves_def evolves0_def)
qed

lemma evolvesI:
  assumes "state s' = state s \<or> (state s = Stopped \<and> state s' = Requesting)
            \<or> (state s' \<noteq> Stopped \<and> state s' \<noteq> Requesting)"
    and "addAllowed s' = addAllowed s"
    and "trace s' = trace s @ es" and "quiet es"
    and "state s = Stopped \<or> buffering s \<or> \<not> buffering s'"
    and "\<not> inv s \<or> buffering s' \<or> \<not> buffering s \<or> state s' \<noteq> Stopped"
    and "acceptTypes s' = acceptTypes s"
    and "state s' = Stopped \<longrightarrow> (inRequest s' = inRequest s \<or> inRequest s' = None)
           \<and> (zhttpRequest s' = zhttpRequest s \<or> zhttpRequest s' = None)"
    and "state s' = Stopped \<or> state s' = Requesting \<longrightarrow>
           list_all idle_item (sessionItems s) \<longrightarrow> list_all idle_item (sessionItems s')"
  shows "evolves s s'"
  using assms(1) _ assms(3) _ _ assms(5-9)
  by (rule evolves_genI) (simp_all add: assms(2,4) quiet_count quiet_filter)

lemma quiet_single [simp]: "quiet [e] \<longleftrightarrow> e \<noteq> AddNotAllowed \<and> \<not> is_finish e"
  by (simp add: quiet_def)

lemma quiet_Cons [simp]: "quiet (e # es) \<longleftrightarrow> e \<noteq> AddNotAllowed \<and> \<not> is_finish e \<and> quiet es"
  by (simp add: quiet_def)

lemma tryNextTarget_evolves:
  assumes "state s \<noteq> Stopped" and "tryNextTarget s = Inr s'"
  shows "evolves s s'"
proof (cases "targets s")
  case Nil
  with assms show ?thesis
    by (simp add: tryNextTarget_def rejectAll_evolves)
next
  case (Cons t rest)
  with assms(2) have f: "state s' = state s" "addAllowed s' = addAllowed s"
    "buffering s' = buffering s" "acceptTypes s' = acceptTypes s"
    "sessionItems s' = sessionItems s"
    by (auto simp: tryNextTarget_def Let_def split: option.splits if_splits)
  from Cons assms(2) have "\<exists>es. trace s' = trace s @ es \<and> quiet es"
    by (auto simp: tryNextTarget_def Let_def is_finish_def split: option.splits if_splits)
  then obtain es where "trace s' = trace s @ es" "quiet es"
    by blast
  then show ?thesis
    using f assms(1) by (intro evolvesI [where es = es]) simp_all
qed

lemma tryRequestRead_evolves:
  assumes "tryRequestRead s = Inr s'"
  shows "evolves s s'"
proof -
  from assms have f: "state s' = state s" "addAllowed s' = addAllowed s"
    "buffering s \<or> \<not> buffering s'" "acceptTypes s' = acceptTypes s"
    "sessionItems s' = sessionItems s" "inRequest s' \<noteq> None" "inRequest s \<noteq> None"
    by (auto simp: tryRequestRead_def Let_def split: option.splits if_splits)
  from assms have "\<exists>es. trace s' = trace s @ es \<and> quiet es"
    by (auto simp: tryRequestRead_def Let_def is_finish_def split: option.splits if_splits)
  then obtain es where t: "trace s' = trace s @ es" "quiet es"
    by blast
  show ?thesis
  proof (cases "state s = Stopped")
    case True
    with f have "\<not> inv s"
      by (simp add: inv_def)
    with f t True show ?thesis
      by (auto simp: evolves_def evolves0_def quiet_count quiet_filter)
  next
    case False
    with f t show ?thesis
      by (intro evolvesI [where es = es]) simp_all
  qed
qed

lemma finish_then_cut_evolves:
  assumes "foreach_items finish_body s = Inr s2"
    and "(if addAllowed s2 then Inr (emit [AddNotAllowed] (s2\<lparr>addAllowed := False\<rparr>))
         else Inr s2) = (Inr s' :: abort + psession)"
  shows "evolves s s'"
proof -
  have e: "evolves s s2"
    using assms(1)
    by (rule foreach_items_evolves)
       (auto simp: finish_body_def quiet_def is_finish_def idle_item_def split: if_splits)
  have "evolves s2 s'"
  proof (cases "addAllowed s2")
    case True
    with assms(2) have "s' = emit [AddNotAllowed] (s2\<lparr>addAllowed := False\<rparr>)"
      by simp
    with True show ?thesis
      by (auto simp: evolves_def evolves0_def inv_def is_finish_def)
  next
    case False
    with assms(2) show ?thesis
      by (simp add: evolves_refl)
  qed
  with e show ?thesis
    by (rule evolves_trans)
qed


lemma checkIncomingResponseFinished_evolves:
  assumes "checkIncomingResponseFinished s = Inr s'"
  shows "evolves s s'"
proof -
  from assms obtain h z where d: "deref_z s = Inr (h, z)"
    by (auto simp: checkIncomingResponseFinished_def bind_r_eq_Inr)
  then have nz: "zhttpRequest s \<noteq> None"
    by (simp add: deref_z_eq_Inr)
  let ?s1 = "emit [ZDelete h] (s\<lparr>zobjs := (zobjs s)(h := None), zhttpRequest := None\<rparr>)"
  have e1: "evolves s ?s1"
    using nz by (intro evolvesI [where es = "[ZDelete h]"]) (auto simp: is_finish_def)
  show ?thesis
  proof (cases "z_isFinished z \<and> \<not> (\<not> buffering s \<and> pendingWrites s)")
    case False
    with assms d have "s' = s"
      by (auto simp: checkIncomingResponseFinished_def split: if_splits)
    then show ?thesis by (simp add: evolves_refl)
  next
    case True
    show ?thesis
    proof (cases "state s = Accepting")
      case acc: True
      with assms d True have "foreach_items pause_body ?s1 = Inr s'"
        by (auto simp: checkIncomingResponseFinished_def Let_def split: if_splits)
      then have "evolves ?s1 s'"
        by (rule foreach_items_evolves)
           (auto simp: pause_body_def quiet_def is_finish_def idle_item_def)
      with e1 show ?thesis by (rule evolves_trans)
    next
      case nacc: False
      with assms d True have "bind_r (foreach_items finish_body ?s1) (\<lambda>s2.
          if addAllowed s2 then Inr (emit [AddNotAllowed] (s2\<lparr>addAllowed := False\<rparr>))
          else Inr s2) = Inr s'"
        by (auto simp: checkIncomingResponseFinished_def Let_def)
      from this [unfolded bind_r_eq_Inr] obtain s2 where
        f: "foreach_items finish_body ?s1 = Inr s2"
        and s': "(if addAllowed s2 then Inr (emit [AddNotAllowed] (s2\<lparr>addAllowed := False\<rparr>))
           else Inr s2) = (Inr s' :: abort + psession)"
        by blast
      from finish_then_cut_evolves [OF f s'] e1 show ?thesis
        by (rule evolves_trans [rotated])
    qed
  qed
qed


lemma write_body_quiet:
  "write_body buf x = Inr (y, es) \<Longrightarrow> quiet es \<and> (idle_item x \<longrightarrow> idle_item y)"
  by (auto simp: write_body_def is_finish_def idle_item_def split: if_splits)

lemma foreach_items_quiet_shape:
  assumes "foreach_items f s = Inr s'"
    and "\<And>x y es. f x = Inr (y, es) \<Longrightarrow> quiet es \<and> (idle_item x \<longrightarrow> idle_item y)"
  shows "\<exists>sis es. s' = s\<lparr>sessionItems := sis, trace := trace s @ es\<rparr> \<and> quiet es
           \<and> (list_all idle_item (sessionItems s) \<longrightarrow> list_all idle_item sis)"
proof -
  from assms(1) obtain sis es where
    f: "foreach f (sessionItems s) = Inr (sis, es)"
    and s': "s' = s\<lparr>sessionItems := sis, trace := trace s @ es\<rparr>"
    by (auto simp: foreach_items_def bind_r_eq_Inr)
  from foreach_quiet [OF f, of True] assms(2) s' show ?thesis
    by blast
qed

text \<open>The chunk is buffered or the buffer is dropped, and the chunk is written to the
  clients; \<^verbatim>\<open>addNotAllowed\<close> follows when the buffer was dropped.\<close>

lemma write_chunk_evolves:
  assumes "zhttpRequest s2 \<noteq> None"
    and "foreach_items (write_body buf)
           (if buffering s2 then
              (if size_of (responseBody s2) + size_of buf > MAX_INITIAL_BUFFER
               then s2\<lparr>responseBody := [], buffering := False, addAllowed := False\<rparr>
               else s2\<lparr>responseBody := responseBody s2 @ buf\<rparr>)
            else s2) = Inr s4"
  shows "evolves s2 (if addAllowed s2 \<and> \<not> addAllowed s4 then emit [AddNotAllowed] s4 else s4)"
    and "addAllowed s2 \<and> \<not> addAllowed s4 \<Longrightarrow>
           evolves s2 ((emit [AddNotAllowed] s4)\<lparr>deleted := True\<rparr>)"
proof -
  let ?s3 = "if buffering s2 then
              (if size_of (responseBody s2) + size_of buf > MAX_INITIAL_BUFFER
               then s2\<lparr>responseBody := [], buffering := False, addAllowed := False\<rparr>
               else s2\<lparr>responseBody := responseBody s2 @ buf\<rparr>)
            else s2"
  have "\<exists>sis es. s4 = ?s3\<lparr>sessionItems := sis, trace := trace ?s3 @ es\<rparr> \<and> quiet es
           \<and> (list_all idle_item (sessionItems ?s3) \<longrightarrow> list_all idle_item sis)"
    by (rule foreach_items_quiet_shape [OF assms(2)]) (rule write_body_quiet)
  then obtain sis es where
    s4: "s4 = (if buffering s2 then
              (if size_of (responseBody s2) + size_of buf > MAX_INITIAL_BUFFER
               then s2\<lparr>responseBody := [], buffering := False, addAllowed := False\<rparr>
               else s2\<lparr>responseBody := responseBody s2 @ buf\<rparr>)
            else s2)\<lparr>sessionItems := sis, trace := trace s2 @ es\<rparr>"
    and q: "quiet es"
    and i: "list_all idle_item (sessionItems s2) \<longrightarrow> list_all idle_item sis"
    by (auto split: if_splits)
  have f: "state s4 = state s2" "acceptTypes s4 = acceptTypes s2" "addAllowed s2 \<or> \<not> addAllowed s4"
    "buffering s2 \<or> \<not> buffering s4" "sessionItems s4 = sis" "trace s4 = trace s2 @ es"
    "inRequest s4 = inRequest s2" "zhttpRequest s4 = zhttpRequest s2"
    by (simp_all add: s4)
  from assms(1) have n: "\<not> inv s2 \<or> state s2 \<noteq> Stopped"
    by (auto simp: inv_def)
  show "evolves s2 (if addAllowed s2 \<and> \<not> addAllowed s4 then emit [AddNotAllowed] s4 else s4)"
  proof (cases "addAllowed s2 \<and> \<not> addAllowed s4")
    case True
    with f q i n show ?thesis
      by (intro evolves_genI [where es = "es @ [AddNotAllowed]"])
         (simp_all add: quiet_count quiet_filter is_finish_def)
  next
    case False
    with f q i n show ?thesis
      by (intro evolves_genI [where es = es])
         (auto simp: quiet_count quiet_filter)
  qed
  show "evolves s2 ((emit [AddNotAllowed] s4)\<lparr>deleted := True\<rparr>)"
    if "addAllowed s2 \<and> \<not> addAllowed s4"
    using that f q i n
    by (intro evolves_genI [where es = "es @ [AddNotAllowed]"])
       (simp_all add: quiet_count quiet_filter is_finish_def)
qed

lemma tryResponseRead_evolves:
  assumes "tryResponseRead del s = Inr s'"
  shows "evolves s s'"
proof (cases "\<not> buffering s \<and> pendingWrites s")
  case True
  with assms have "s' = s"
    by (simp add: tryResponseRead_def)
  then show ?thesis
    by (simp add: evolves_refl)
next
  case False
  with assms obtain h z where d: "deref_z s = Inr (h, z)"
    by (auto simp: tryResponseRead_def bind_r_eq_Inr)
  then have nz: "zhttpRequest s \<noteq> None"
    by (simp add: deref_z_eq_Inr)
  define buf where "buf = readBody_data MAX_STREAM_BUFFER (z_avail z)"
  define s1 where "s1 = emit [ZReadBody h MAX_STREAM_BUFFER]
     (s\<lparr>zobjs := (zobjs s)
        (h := Some (z\<lparr>z_avail := readBody_rest MAX_STREAM_BUFFER (z_avail z)\<rparr>))\<rparr>)"
  define s2 where "s2 = s1\<lparr>total_recv := total_recv s1 + size_of buf\<rparr>"
  have e1: "evolves s s1"
    unfolding s1_def
    by (intro evolvesI [where es = "[ZReadBody h MAX_STREAM_BUFFER]"])
       (auto simp: is_finish_def)
  have e2: "evolves s1 s2"
    unfolding s2_def by (intro evolvesI [where es = "[]"]) auto
  have e12: "evolves s s2"
    using e1 e2 by (rule evolves_trans)
  have nz2: "zhttpRequest s2 \<noteq> None"
    using nz by (simp add: s2_def s1_def)
  from assms False d have body:
    "(if buf \<noteq> [] then
        (if state s2 = Accepting then
           (if size_of (responseBody s2) + size_of buf > MAX_ACCEPT_RESPONSE_BODY
            then rejectAll 502 ''Bad Gateway'' ''GRIP instruct response too large.'' s2
            else checkIncomingResponseFinished (s2\<lparr>responseBody := responseBody s2 @ buf\<rparr>))
         else
           bind_r (foreach_items (write_body buf)
               (if buffering s2 then
                  (if size_of (responseBody s2) + size_of buf > MAX_INITIAL_BUFFER
                   then s2\<lparr>responseBody := [], buffering := False, addAllowed := False\<rparr>
                   else s2\<lparr>responseBody := responseBody s2 @ buf\<rparr>)
                else s2))
             (\<lambda>s4. if addAllowed s2 \<and> \<not> addAllowed s4 then
                     (if del then Inr ((emit [AddNotAllowed] s4)\<lparr>deleted := True\<rparr>)
                      else checkIncomingResponseFinished (emit [AddNotAllowed] s4))
                   else checkIncomingResponseFinished s4))
      else checkIncomingResponseFinished s1) = Inr s'"
    unfolding tryResponseRead_def Let_def buf_def s2_def s1_def
    by simp
  show ?thesis
  proof (cases "buf = []")
    case True
    with body have "checkIncomingResponseFinished s1 = Inr s'"
      by simp
    from e1 checkIncomingResponseFinished_evolves [OF this] show ?thesis
      by (rule evolves_trans)
  next
    case nonempty: False
    show ?thesis
    proof (cases "state s2 = Accepting")
      case True
      show ?thesis
      proof (cases "size_of (responseBody s2) + size_of buf > MAX_ACCEPT_RESPONSE_BODY")
        case True
        with body nonempty \<open>state s2 = Accepting\<close>
        have "rejectAll 502 ''Bad Gateway'' ''GRIP instruct response too large.'' s2 = Inr s'"
          by simp
        from e12 rejectAll_evolves [OF this] show ?thesis
          by (rule evolves_trans)
      next
        case False
        with body nonempty \<open>state s2 = Accepting\<close>
        have c: "checkIncomingResponseFinished (s2\<lparr>responseBody := responseBody s2 @ buf\<rparr>)
            = Inr s'"
          by simp
        have "evolves s2 (s2\<lparr>responseBody := responseBody s2 @ buf\<rparr>)"
          by (intro evolvesI [where es = "[]"]) auto
        from this checkIncomingResponseFinished_evolves [OF c] have "evolves s2 s'"
          by (rule evolves_trans)
        with e12 show ?thesis
          by (rule evolves_trans)
      qed
    next
      case False
      with body nonempty have "bind_r (foreach_items (write_body buf)
               (if buffering s2 then
                  (if size_of (responseBody s2) + size_of buf > MAX_INITIAL_BUFFER
                   then s2\<lparr>responseBody := [], buffering := False, addAllowed := False\<rparr>
                   else s2\<lparr>responseBody := responseBody s2 @ buf\<rparr>)
                else s2))
             (\<lambda>s4. if addAllowed s2 \<and> \<not> addAllowed s4 then
                     (if del then Inr ((emit [AddNotAllowed] s4)\<lparr>deleted := True\<rparr>)
                      else checkIncomingResponseFinished (emit [AddNotAllowed] s4))
                   else checkIncomingResponseFinished s4) = Inr s'"
        by simp
      from this [unfolded bind_r_eq_Inr] obtain s4 where
        w: "foreach_items (write_body buf)
               (if buffering s2 then
                  (if size_of (responseBody s2) + size_of buf > MAX_INITIAL_BUFFER
                   then s2\<lparr>responseBody := [], buffering := False, addAllowed := False\<rparr>
                   else s2\<lparr>responseBody := responseBody s2 @ buf\<rparr>)
                else s2) = Inr s4"
        and k: "(if addAllowed s2 \<and> \<not> addAllowed s4 then
                     (if del then Inr ((emit [AddNotAllowed] s4)\<lparr>deleted := True\<rparr>)
                      else checkIncomingResponseFinished (emit [AddNotAllowed] s4))
                   else checkIncomingResponseFinished s4) = Inr s'"
        by blast
      note wc = write_chunk_evolves [OF nz2 w]
      have "evolves s2 s'"
      proof (cases "addAllowed s2 \<and> \<not> addAllowed s4")
        case cut: True
        show ?thesis
        proof (cases del)
          case True
          with k cut have "s' = (emit [AddNotAllowed] s4)\<lparr>deleted := True\<rparr>"
            by simp
          with wc(2) [OF cut] show ?thesis
            by simp
        next
          case False
          with k cut have c: "checkIncomingResponseFinished (emit [AddNotAllowed] s4) = Inr s'"
            by simp
          from wc(1) cut have "evolves s2 (emit [AddNotAllowed] s4)"
            by simp
          from this checkIncomingResponseFinished_evolves [OF c] show ?thesis
            by (rule evolves_trans)
        qed
      next
        case nocut: False
        with k have c: "checkIncomingResponseFinished s4 = Inr s'"
          by simp
        from wc(1) nocut have "evolves s2 s4"
          by simp
        from this checkIncomingResponseFinished_evolves [OF c] show ?thesis
          by (rule evolves_trans)
      qed
      with e12 show ?thesis
        by (rule evolves_trans)
    qed
  qed
qed

lemma evolves_same:
  assumes "state s' = state s" "addAllowed s' = addAllowed s" "trace s' = trace s"
    "buffering s' = buffering s" "acceptTypes s' = acceptTypes s"
    "inRequest s' = inRequest s \<or> inRequest s' = None"
    "zhttpRequest s' = zhttpRequest s \<or> zhttpRequest s' = None"
    "list_all idle_item (sessionItems s) \<longrightarrow> list_all idle_item (sessionItems s')"
  shows "evolves s s'"
  using assms by (intro evolvesI [where es = "[]"]) auto

lemma route_signing_fields:
  "state (route_signing env entry s) = state s"
  "addAllowed (route_signing env entry s) = addAllowed s"
  "trace (route_signing env entry s) = trace s"
  "buffering (route_signing env entry s) = buffering s"
  "acceptTypes (route_signing env entry s) = acceptTypes s"
  "inRequest (route_signing env entry s) = inRequest s"
  "zhttpRequest (route_signing env entry s) = zhttpRequest s"
  "sessionItems (route_signing env entry s) = sessionItems s"
  by (simp_all add: route_signing_def Let_def)

lemma forwarded_protocol_fields:
  "state (forwarded_protocol s) = state s"
  "addAllowed (forwarded_protocol s) = addAllowed s"
  "trace (forwarded_protocol s) = trace s"
  "buffering (forwarded_protocol s) = buffering s"
  "acceptTypes (forwarded_protocol s) = acceptTypes s"
  "inRequest (forwarded_protocol s) = inRequest s"
  "zhttpRequest (forwarded_protocol s) = zhttpRequest s"
  "sessionItems (forwarded_protocol s) = sessionItems s"
  by (simp_all add: forwarded_protocol_def Let_def)

lemma forwarded_for_fields:
  "state (forwarded_for r s) = state s"
  "addAllowed (forwarded_for r s) = addAllowed s"
  "trace (forwarded_for r s) = trace s"
  "buffering (forwarded_for r s) = buffering s"
  "acceptTypes (forwarded_for r s) = acceptTypes s"
  "inRequest (forwarded_for r s) = inRequest s"
  "zhttpRequest (forwarded_for r s) = zhttpRequest s"
  "sessionItems (forwarded_for r s) = sessionItems s"
  by (simp_all add: forwarded_for_def Let_def)

lemma start_requesting_fields:
  "state (start_requesting r s) = Requesting"
  "addAllowed (start_requesting r s) = addAllowed s"
  "trace (start_requesting r s) = trace s"
  "acceptTypes (start_requesting r s) = acceptTypes s"
  "sessionItems (start_requesting r s) = sessionItems s"
  by (simp_all add: start_requesting_def Let_def)

lemma add_route_evolves:
  assumes "state s = Stopped" and "add_route env r entry s = Inr s'"
  shows "evolves s s'"
proof -
  let ?s10 = "start_requesting r (forwarded_for r (forwarded_protocol (route_signing env entry s)))"
  have "evolves s ?s10"
    using assms(1)
    by (intro evolvesI [where es = "[]"])
       (simp_all add: start_requesting_fields forwarded_for_fields forwarded_protocol_fields
          route_signing_fields)
  moreover have "evolves ?s10 s'"
    using assms(2) unfolding add_route_def
    by (intro tryNextTarget_evolves) (simp_all add: start_requesting_fields)
  ultimately show ?thesis
    by (rule evolves_trans)
qed

lemma add_evolves:
  assumes "add dm env r s = Inr s'"
  shows "evolves s s'"
proof -
  let ?s0 = "s\<lparr>sessionItems := SessionItem r # sessionItems s\<rparr>"
  from assms have aa: "addAllowed s"
    by (auto simp: add_def split: if_splits)
  have e0: "evolves s ?s0"
    by (intro evolves_same) (simp_all add: SessionItem_def idle_item_def)
  show ?thesis
  proof (cases "state s")
    case Stopped
    let ?s1 = "?s0\<lparr>isHttps := rs_isHttps r,
                  requestBody := requestBody ?s0 @ req_body (rs_requestData r),
                  requestData := (rs_requestData r)
                    \<lparr>req_body := [],
                     req_headers := strip_request_headers (req_headers (rs_requestData r))\<rparr>\<rparr>"
    have e1: "evolves ?s0 ?s1"
      by (intro evolves_same) simp_all
    from assms aa Stopped have
      "(case dm (uri_host (req_uri (rs_requestData r))) (uri_encodedPath (req_uri (requestData ?s1)))
             (isHttps ?s1) of
          None \<Rightarrow> rejectAll 502 ''Bad Gateway''
                    (''No route for host: '' @ uri_host (req_uri (rs_requestData r))) ?s1
        | Some entry \<Rightarrow> add_route env r entry ?s1) = Inr s'"
      unfolding add_def Let_def by simp
    then have "evolves ?s1 s'"
      using Stopped
      by (auto split: option.splits intro: rejectAll_evolves add_route_evolves)
    with e1 have "evolves ?s0 s'"
      by (rule evolves_trans)
    with e0 show ?thesis
      by (rule evolves_trans)
  next
    case Requesting
    with assms aa have "s' = ?s0"
      unfolding add_def Let_def by simp
    with e0 show ?thesis by simp
  next
    case Accepting
    with assms aa have "s' = ?s0"
      unfolding add_def Let_def by simp
    with e0 show ?thesis by simp
  next
    case Responding
    with assms aa obtain si es where
      c: "catch_up (responseData ?s0) (responseBody ?s0) (SessionItem r) = Inr (si, es)"
      and s': "s' = emit es (?s0\<lparr>sessionItems := si # sessionItems s\<rparr>)"
      unfolding add_def Let_def by (auto split: sum.splits)
    from c have "quiet es"
      by (auto simp: catch_up_def is_finish_def)
    with Responding show ?thesis
      unfolding s' by (intro evolvesI [where es = es]) simp_all
  qed
qed

lemma evolves_advances: "evolves s s' \<Longrightarrow> advances s s'"
  by (simp add: evolves_def advances_def)

lemma evolves_then_finish:
  assumes "evolves s s2" and "is_finish e"
  shows "advances s (emit [e] s2)"
proof -
  from assms(2) have "e \<noteq> AddNotAllowed"
    by (auto simp: is_finish_def)
  then have "evolves0 s2 (emit [e] s2)"
    by (auto simp: evolves0_def inv_def)
  with assms(1) have "evolves0 s (emit [e] s2)"
    unfolding evolves_def by (blast intro: evolves0_trans)
  with assms show ?thesis
    by (simp add: advances_def evolves_def)
qed

lemma list_all_update_item:
  "(\<And>x. P x \<Longrightarrow> P (f x)) \<Longrightarrow> list_all P xs \<Longrightarrow> list_all P (update_item p f xs)"
  by (induction xs) auto

lemma list_all_remove_item: "list_all P xs \<Longrightarrow> list_all P (remove_item p xs)"
  by (induction xs) auto

lemma inRequest_readyRead_evolves:
  assumes "inRequest_readyRead s = Inr s'"
  shows "evolves s s'"
proof -
  from assms [unfolded inRequest_readyRead_def bind_r_eq_Inr] obtain s1 where
    t: "tryRequestRead s = Inr s1"
    and k: "(case inRequest s1 of None \<Rightarrow> Inl NullDeref
        | Some ir \<Rightarrow> if in_isInputFinished ir then
             (case zhttpRequest s1 of None \<Rightarrow> Inl NullDeref
              | Some h \<Rightarrow> Inr (emit [ZEndBody h] s1))
           else Inr s1) = Inr s'"
    by blast
  from k have "s' = s1 \<or> (\<exists>h. s' = emit [ZEndBody h] s1)"
    by (auto split: option.splits if_splits)
  then have "evolves s1 s'"
  proof
    assume "s' = s1"
    then show ?thesis by (simp add: evolves_refl)
  next
    assume "\<exists>h. s' = emit [ZEndBody h] s1"
    then obtain h where "s' = emit [ZEndBody h] s1" ..
    then show ?thesis
      by (intro evolvesI [where es = "[ZEndBody h]"]) (auto simp: is_finish_def)
  qed
  with tryRequestRead_evolves [OF t] show ?thesis
    by (rule evolves_trans)
qed

lemma inRequest_error_evolves: "inRequest_error s = Inr s' \<Longrightarrow> evolves s s'"
  by (simp add: inRequest_error_def rejectAll_evolves)

lemma zhttpRequest_bytesWritten_evolves:
  assumes "zhttpRequest_bytesWritten count s = Inr s'"
  shows "evolves s s'"
proof -
  let ?s1 = "s\<lparr>requestBytesToWrite := requestBytesToWrite s - count\<rparr>"
  have e: "evolves s ?s1"
    by (intro evolves_same) simp_all
  from assms have "s' = ?s1 \<or> tryRequestRead ?s1 = Inr s'"
    by (auto simp: zhttpRequest_bytesWritten_def Let_def split: if_splits)
  then have "evolves ?s1 s'"
    by (auto simp: evolves_refl intro: tryRequestRead_evolves)
  with e show ?thesis
    by (rule evolves_trans)
qed

lemma zhttpRequest_error_evolves:
  assumes "zhttpRequest_error s = Inr s'"
  shows "evolves s s'"
proof -
  from assms obtain h z where d: "deref_z s = Inr (h, z)"
    by (auto simp: zhttpRequest_error_def bind_r_eq_Inr)
  from assms d have
    "s' = s \<or> (state s \<noteq> Stopped \<and> tryNextTarget s = Inr s') \<or> destroyAll s = Inr s'
     \<or> (\<exists>c r m. rejectAll c r m s = Inr s')"
    by (cases "z_errorCondition z") (auto simp: zhttpRequest_error_def split: if_splits)
  then show ?thesis
    by (auto simp: evolves_refl
        intro: tryNextTarget_evolves destroyAll_evolves rejectAll_evolves)
qed

lemma rs_errorResponding_evolves:
  assumes "rs_errorResponding p s = Inr s'"
  shows "evolves s s'"
proof -
  from assms have "s' = s\<lparr>sessionItems :=
      update_item p (\<lambda>si. si\<lparr>si_state := Errored, bytesToWrite := - 1\<rparr>) (sessionItems s)\<rparr>"
    by (auto simp: rs_errorResponding_def split: option.splits if_splits)
  then show ?thesis
    by (intro evolves_same) (auto intro!: list_all_update_item simp: idle_item_def)
qed

lemma rs_bytesWritten_evolves:
  assumes "rs_bytesWritten p count del s = Inr s'" and "0 \<le> count"
  shows "evolves s s'"
proof -
  from assms(1) obtain si where l: "lookup_item p (sessionItems s) = Some si"
    by (auto simp: rs_bytesWritten_def split: option.splits)
  let ?s1 = "if bytesToWrite si \<noteq> - 1 then
      s\<lparr>sessionItems := update_item p
           (\<lambda>si. si\<lparr>bytesToWrite := bytesToWrite si - count\<rparr>) (sessionItems s)\<rparr>
    else s"
  have e: "evolves s ?s1"
    using assms(2)
    by (intro evolves_same) (auto intro!: list_all_update_item simp: idle_item_def)
  from assms(1) l have "s' = ?s1 \<or> tryResponseRead del ?s1 = Inr s'"
    unfolding rs_bytesWritten_def Let_def by (simp split: if_splits)
  then have "evolves ?s1 s'"
    by (auto simp: evolves_refl intro: tryResponseRead_evolves)
  with e show ?thesis
    by (rule evolves_trans)
qed

lemma rs_finished_advances:
  assumes "rs_finished p del s = Inr s'"
  shows "advances s s'"
proof -
  from assms obtain si where l: "lookup_item p (sessionItems s) = Some si"
    by (auto simp: rs_finished_def split: option.splits)
  let ?s1 = "emit [RequestSessionDestroyed (rs_ptr (rs si))] s"
  let ?s2 = "emit [RsDelete p] (?s1\<lparr>sessionItems := remove_item p (sessionItems ?s1)\<rparr>)"
  have e1: "evolves s (?s1\<lparr>deleted := True\<rparr>)"
    by (intro evolvesI [where es = "[RequestSessionDestroyed (rs_ptr (rs si))]"])
       (auto simp: is_finish_def)
  have e2: "evolves s ?s2"
    by (intro evolvesI [where es = "[RequestSessionDestroyed (rs_ptr (rs si)), RsDelete p]"])
       (auto simp: is_finish_def intro: list_all_remove_item)
  from assms l have "s' = ?s1\<lparr>deleted := True\<rparr> \<or> s' = ?s2 \<or> s' = emit [FinishedByPassthrough] ?s2"
    unfolding rs_finished_def Let_def by (simp split: if_splits)
  then show ?thesis
    using e1 e2 evolves_then_finish [OF e2, of FinishedByPassthrough]
    by (auto simp: is_finish_def intro: evolves_advances)
qed

lemma rs_paused_advances:
  assumes "rs_paused p s = Inr s'"
  shows "advances s s'"
proof -
  from assms obtain si where l: "lookup_item p (sessionItems s) = Some si"
    and ps: "si_state si = Pausing"
    by (auto simp: rs_paused_def split: option.splits if_splits)
  let ?items = "update_item p (\<lambda>si. si\<lparr>si_state := Paused\<rparr>) (sessionItems s)"
  let ?s1 = "s\<lparr>sessionItems := ?items\<rparr>"
  have e1: "evolves s ?s1"
    by (intro evolves_same) (auto intro!: list_all_update_item simp: idle_item_def)
  show ?thesis
  proof (cases "list_all (\<lambda>si. si_state si = Paused) ?items")
    case False
    from rs_paused_not_all_paused [OF l ps False] assms have "s' = ?s1"
      by simp
    with e1 show ?thesis
      by (simp add: evolves_advances)
  next
    case True
    let ?s2 = "cleanup (?s1\<lparr>requestBody := [], responseBody := []\<rparr>)"
    have q: "quiet (map (\<lambda>si. RsDelete (rs_ptr (rs si))) xs)" for xs :: "session_item list"
      by (induction xs) (simp_all add: is_finish_def)
    have e2: "evolves s ?s2"
      unfolding cleanup_def
      by (intro evolvesI [where es = "map (\<lambda>si. RsDelete (rs_ptr (rs si))) ?items"])
         (simp_all add: q)
    from assms l ps True obtain a where "s' = emit [FinishedForAccept a] ?s2"
      unfolding rs_paused_def Let_def by auto
    with evolves_then_finish [OF e2, of "FinishedForAccept a"] show ?thesis
      by (simp add: is_finish_def)
  qed
qed

lemma zhttpRequest_readyRead_evolves:
  assumes "zhttpRequest_readyRead del s = Inr s'"
  shows "evolves s s'"
proof (cases "state s = Requesting")
  case False
  with assms have "tryResponseRead del s = Inr s'"
    by (auto simp: zhttpRequest_readyRead_def split: if_splits)
  then show ?thesis
    by (rule tryResponseRead_evolves)
next
  case True
  with assms obtain h z where d: "deref_z s = Inr (h, z)"
    by (auto simp: zhttpRequest_readyRead_def bind_r_eq_Inr)
  define s2 where "s2 = (emit [ZReadBody h MAX_INITIAL_BUFFER]
       (s\<lparr>responseData := (responseData s)
             \<lparr>resp_code := z_responseCode z, resp_reason := z_responseReason z,
              resp_headers := z_responseHeaders z\<rparr>,
          zobjs := (zobjs s)
             (h := Some (z\<lparr>z_avail := readBody_rest MAX_INITIAL_BUFFER (z_avail z)\<rparr>)),
          responseBody := responseBody s @ readBody_data MAX_INITIAL_BUFFER (z_avail z)\<rparr>))
     \<lparr>total_recv := total_recv s
        + size_of (responseBody s @ readBody_data MAX_INITIAL_BUFFER (z_avail z))\<rparr>"
  define s3 where "s3 = s2\<lparr>state := Responding,
       responseData := (responseData s2)
         \<lparr>resp_headers := strip_response_headers (resp_headers (responseData s2))\<rparr>\<rparr>"
  have e2: "evolves s s2"
    unfolding s2_def
    by (intro evolvesI [where es = "[ZReadBody h MAX_INITIAL_BUFFER]"])
       (auto simp: is_finish_def)
  have ea: "evolves s2 (s2\<lparr>state := Accepting\<rparr>)"
    by (intro evolvesI [where es = "[]"]) auto
  have e3: "evolves s2 s3"
    unfolding s3_def by (intro evolvesI [where es = "[]"]) auto
  from assms True d have
    "rejectAll 502 ''Bad Gateway'' ''Request too large to accept GRIP instruct.'' s2 = Inr s'
     \<or> checkIncomingResponseFinished (s2\<lparr>state := Accepting\<rparr>) = Inr s'
     \<or> bind_r (foreach_items (catch_up (responseData s3) (responseBody s3)) s3)
          checkIncomingResponseFinished = Inr s'"
    unfolding zhttpRequest_readyRead_def Let_def s3_def s2_def
    by (simp add: emit_def split: if_splits)
  then have "evolves s2 s'"
  proof (elim disjE)
    assume "rejectAll 502 ''Bad Gateway'' ''Request too large to accept GRIP instruct.'' s2 = Inr s'"
    then show ?thesis by (rule rejectAll_evolves)
  next
    assume "checkIncomingResponseFinished (s2\<lparr>state := Accepting\<rparr>) = Inr s'"
    from ea checkIncomingResponseFinished_evolves [OF this] show ?thesis
      by (rule evolves_trans)
  next
    assume "bind_r (foreach_items (catch_up (responseData s3) (responseBody s3)) s3)
          checkIncomingResponseFinished = Inr s'"
    from this [unfolded bind_r_eq_Inr] obtain s4 where
      f: "foreach_items (catch_up (responseData s3) (responseBody s3)) s3 = Inr s4"
      and c: "checkIncomingResponseFinished s4 = Inr s'"
      by blast
    have r: "state s3 = Responding"
      by (simp add: s3_def)
    from f have "evolves s3 s4"
      by (rule foreach_items_evolves) (auto simp: catch_up_def is_finish_def r)
    from this checkIncomingResponseFinished_evolves [OF c] have "evolves s3 s'"
      by (rule evolves_trans)
    with e3 show ?thesis
      by (rule evolves_trans)
  qed
  with e2 show ?thesis
    by (rule evolves_trans)
qed

lemma step_advances:
  assumes "step s ev = Inr s'"
  shows "advances s s'"
proof (cases ev)
  case (CallSetDefaultSigKey iss key)
  with assms show ?thesis
    by (auto simp: step_def setDefaultSigKey_def intro!: evolves_advances evolves_same)
next
  case (CallSetDefaultUpstreamKey key)
  with assms show ?thesis
    by (auto simp: step_def setDefaultUpstreamKey_def intro!: evolves_advances evolves_same)
next
  case (CallSetUseXForwardedProtocol b)
  with assms show ?thesis
    by (auto simp: step_def setUseXForwardedProtocol_def intro!: evolves_advances evolves_same)
next
  case (CallSetXffRules u t)
  with assms show ?thesis
    by (auto simp: step_def setXffRules_def intro!: evolves_advances evolves_same)
next
  case (CallSetInspectData d)
  with assms show ?thesis
    by (auto simp: step_def setInspectData_def intro!: evolves_advances evolves_same)
next
  case (CallAdd dm env r)
  with assms show ?thesis
    by (auto simp: step_def intro!: evolves_advances add_evolves)
next
  case CallCannotAccept
  with assms show ?thesis
    by (auto simp: step_def intro!: evolves_advances cannotAcceptAll_evolves)
next
  case SigInRequestReadyRead
  with assms show ?thesis
    by (auto simp: step_def intro!: evolves_advances inRequest_readyRead_evolves)
next
  case SigInRequestError
  with assms show ?thesis
    by (auto simp: step_def intro!: evolves_advances inRequest_error_evolves)
next
  case (SigZReadyRead del)
  with assms show ?thesis
    by (auto simp: step_def intro!: evolves_advances zhttpRequest_readyRead_evolves)
next
  case (SigZBytesWritten n)
  with assms show ?thesis
    by (auto simp: step_def intro!: evolves_advances zhttpRequest_bytesWritten_evolves)
next
  case SigZError
  with assms show ?thesis
    by (auto simp: step_def intro!: evolves_advances zhttpRequest_error_evolves)
next
  case (SigRsBytesWritten p n del)
  with assms have "rs_bytesWritten p (int n) del s = Inr s'"
    by (simp add: step_def)
  then have "evolves s s'"
    by (rule rs_bytesWritten_evolves) simp
  then show ?thesis
    by (rule evolves_advances)
next
  case (SigRsFinished p del)
  with assms show ?thesis
    by (auto simp: step_def intro!: rs_finished_advances)
next
  case (SigRsPaused p)
  with assms show ?thesis
    by (auto simp: step_def intro!: rs_paused_advances)
next
  case (SigRsErrorResponding p)
  with assms show ?thesis
    by (auto simp: step_def intro!: evolves_advances rs_errorResponding_evolves)
next
  case (EnvUpstream h z)
  with assms show ?thesis
    by (auto simp: step_def split: if_splits intro!: evolves_advances evolves_same evolves_refl)
next
  case (EnvInRequest ir)
  with assms have "s' = s \<or> (inRequest s \<noteq> None \<and> s' = s\<lparr>inRequest := Some ir\<rparr>)"
    by (auto simp: step_def split: if_splits)
  then have "evolves s s'"
    by (auto simp: evolves_refl evolves_def evolves0_def inv_def)
  then show ?thesis
    by (rule evolves_advances)
next
  case (EnvServerState p ss)
  have "list_all idle_item xs \<Longrightarrow> list_all idle_item (map (\<lambda>si. if rs_ptr (rs si) = p
           then si\<lparr>rs := (rs si)\<lparr>rs_serverState := ss\<rparr>\<rparr> else si) xs)" for xs
    by (induction xs) (auto simp: idle_item_def)
  with EnvServerState assms show ?thesis
    by (auto simp: step_def intro!: evolves_advances evolves_same)
qed

section \<open>Executions keep the invariants\<close>

lemma evolves0_refl: "evolves0 s s"
  by (simp add: evolves0_def)

lemma dissolved_iff: "dissolved s \<longleftrightarrow> deleted s \<or> filter is_finish (trace s) \<noteq> []"
  by (auto simp: dissolved_def list_ex_iff filter_empty_conv)

lemma run_dissolved: "dissolved s \<Longrightarrow> run s evs = Inr s"
  by (cases evs) simp_all

lemma run_advances:
  assumes "run s evs = Inr s'"
  shows "evolves0 s s'
     \<and> (filter is_finish (trace s) = [] \<longrightarrow> length (filter is_finish (trace s')) \<le> 1)"
  using assms
proof (induction evs arbitrary: s)
  case Nil
  then show ?case by (simp add: evolves0_refl)
next
  case (Cons ev evs)
  show ?case
  proof (cases "dissolved s")
    case True
    with Cons.prems have "s' = s"
      by simp
    then show ?thesis by (simp add: evolves0_refl)
  next
    case False
    with Cons.prems obtain s1 where st: "step s ev = Inr s1" and r: "run s1 evs = Inr s'"
      by (auto simp: bind_r_eq_Inr)
    from step_advances [OF st] have a: "advances s s1" .
    from Cons.IH [OF r] have ih: "evolves0 s1 s'"
      "filter is_finish (trace s1) = [] \<longrightarrow> length (filter is_finish (trace s')) \<le> 1"
      by simp_all
    from a ih(1) have e: "evolves0 s s'"
      unfolding advances_def by (blast intro: evolves0_trans)
    have "length (filter is_finish (trace s')) \<le> 1" if z: "filter is_finish (trace s) = []"
    proof (cases "filter is_finish (trace s1) = []")
      case True
      with ih(2) show ?thesis by simp
    next
      case f: False
      then have "dissolved s1"
        by (simp add: dissolved_iff)
      with r have "s' = s1"
        by (simp add: run_dissolved)
      with a z f show ?thesis
        by (auto simp: advances_def)
    qed
    with e show ?thesis by simp
  qed
qed

lemma inv_Private: "inv (Private b0 xr0)"
  by (simp add: inv_def Private_def)

lemma run_inv: "run (Private b0 xr0) evs = Inr s \<Longrightarrow> inv s"
  using run_advances [of "Private b0 xr0" evs s] inv_Private [of b0 xr0]
  by (auto simp: evolves0_def)

lemma finish_count:
  "length (filter is_finish t) = count_list t FinishedByPassthrough + length (handoffs t)"
proof (induction t)
  case Nil
  then show ?case by (simp add: handoffs_def)
next
  case (Cons e t)
  then show ?case
    by (cases e) (simp_all add: handoffs_def is_finish_def)
qed

lemma inv_no_pending:
  assumes "inv s" and "state s = Stopped \<or> state s = Requesting"
  shows "\<not> pendingWrites s"
proof -
  from assms have "list_all idle_item (sessionItems s)"
    by (auto simp: inv_def)
  then show ?thesis
    by (auto simp: pendingWrites_def list_all_iff list_ex_iff idle_item_def)
qed

lemma execute_evolves0:
  assumes "execute s evs = Inr s'"
  shows "evolves0 s s'"
  using assms
proof (induction evs arbitrary: s)
  case Nil
  then show ?case by (simp add: evolves0_refl)
next
  case (Cons ev evs)
  then obtain s1 where st: "step s ev = Inr s1" and r: "execute s1 evs = Inr s'"
    by (auto simp: bind_r_eq_Inr)
  from step_advances [OF st] have "evolves0 s s1"
    by (simp add: advances_def)
  from this Cons.IH [OF r] show ?case
    by (rule evolves0_trans)
qed

lemma execute_inv: "execute (Private b0 xr0) evs = Inr s \<Longrightarrow> inv s"
  using execute_evolves0 [of "Private b0 xr0" evs s] inv_Private [of b0 xr0]
  by (auto simp: evolves0_def)

lemma succeeded_the_session: "succeeded r \<Longrightarrow> r = Inr (the_session r)"
  by (cases r) (simp_all add: succeeded_def the_session_def)

lemma handoff_run_result:
  "(case handoff_run of
      Inr s \<Rightarrow> length (handoffs (trace s)) = 1 \<and> count_list (trace s) AddNotAllowed = 0
              \<and> dissolved s
    | Inl e \<Rightarrow> False)"
  by code_simp

lemma plain_run_ok: "succeeded (execute (Private True xff0) plain_events)"
  by code_simp

lemma plain_step_ok:
  "(case step before_response (SigZReadyRead False) of
      Inr s \<Rightarrow> \<not> addAllowed s
    | Inl e \<Rightarrow> False)"
  by code_simp

section \<open>The finish signals\<close>

text \<open>
  C7. Over every execution of a session, \<^verbatim>\<open>finishedByPassthrough\<close> and
  \<^verbatim>\<open>finishedForAccept\<close> together are emitted at most once: neither is emitted twice, and
  never both. An execution is a run of events on a new session that ends when the session
  is destroyed, which its owner does at the first finish signal.
\<close>

theorem finish_signals_exclusive:
  assumes "run (Private b0 xr0) evs = Inr s"
  shows "count_list (trace s) FinishedByPassthrough + length (handoffs (trace s)) \<le> 1"
proof -
  have "filter is_finish (trace (Private b0 xr0)) = []"
    by (simp add: Private_def)
  with run_advances [OF assms] have "length (filter is_finish (trace s)) \<le> 1"
    by simp
  then show ?thesis
    by (simp add: finish_count)
qed

theorem finish_signals_exclusive_witness:
  "\<exists>s. handoff_run = Inr s \<and> length (handoffs (trace s)) = 1
     \<and> count_list (trace s) FinishedByPassthrough + length (handoffs (trace s)) \<le> 1"
proof (cases handoff_run)
  case (Inl e)
  from handoff_run_result [unfolded Inl] show ?thesis
    by simp
next
  case (Inr s)
  from handoff_run_result [unfolded Inr] have a: "length (handoffs (trace s)) = 1"
    by simp
  from finish_signals_exclusive [OF Inr [unfolded handoff_run_def]]
  have b: "count_list (trace s) FinishedByPassthrough + length (handoffs (trace s)) \<le> 1" .
  from Inr a b show ?thesis
    by blast
qed

section \<open>The buffering and addAllowed flags\<close>

text \<open>
  C5. Over every execution of a session (the events handled one after the other, from a new
  session; \<open>s\<close>, \<open>s1\<close> and \<open>s2\<close> are the session before a step, after it and at any later
  point): once \<open>buffering\<close> is false, by a step that found it true or in a session that
  has left state \<open>Stopped\<close>, it stays false (the constructor leaves \<open>buffering\<close>
  uninitialised, and the first \<^verbatim>\<open>add\<close> sets it); once \<open>addAllowed\<close> is false it stays
  false; and \<^verbatim>\<open>addNotAllowed\<close> has been emitted once if \<open>addAllowed\<close> is false and not at
  all if it is true, so at most once.
\<close>

theorem flags_monotone:
  assumes "execute (Private b0 xr0) evs = Inr s" and "step s ev = Inr s1"
    and "execute s1 evs' = Inr s2"
  shows "(\<not> buffering s1 \<and> (buffering s \<or> state s1 \<noteq> Stopped) \<longrightarrow> \<not> buffering s2)
       \<and> (\<not> addAllowed s1 \<longrightarrow> \<not> addAllowed s2)
       \<and> count_list (trace s2) AddNotAllowed = (if addAllowed s2 then 0 else 1)"
proof -
  have i: "inv s"
    using assms(1) by (rule execute_inv)
  from execute_evolves0 [OF assms(1)] have e0: "evolves0 (Private b0 xr0) s" .
  from step_advances [OF assms(2)] have e1: "evolves0 s s1"
    by (simp add: advances_def)
  from execute_evolves0 [OF assms(3)] have e2: "evolves0 s1 s2" .
  from e0 e1 have "evolves0 (Private b0 xr0) s1"
    by (rule evolves0_trans)
  from this e2 have e: "evolves0 (Private b0 xr0) s2"
    by (rule evolves0_trans)
  have b: "\<not> buffering s2" if "\<not> buffering s1" "buffering s \<or> state s1 \<noteq> Stopped"
  proof -
    from that i e1 have "state s1 \<noteq> Stopped"
      by (auto simp: evolves0_def)
    with that(1) e2 show ?thesis
      by (auto simp: evolves0_def)
  qed
  have a: "\<not> addAllowed s2" if "\<not> addAllowed s1"
    using that e2 by (auto simp: evolves0_def)
  have c: "count_list (trace s2) AddNotAllowed = (if addAllowed s2 then 0 else 1)"
    using e by (auto simp: evolves0_def Private_def split: if_splits)
  from a b c show ?thesis
    by blast
qed

theorem flags_monotone_witness:
  "execute (Private True xff0) plain_events = Inr before_response
   \<and> step before_response (SigZReadyRead False) = Inr after_response
   \<and> execute after_response [] = Inr after_response
   \<and> \<not> addAllowed after_response
   \<and> count_list (trace after_response) AddNotAllowed = 1"
proof -
  have r1: "execute (Private True xff0) plain_events = Inr before_response"
    unfolding before_response_def using plain_run_ok by (rule succeeded_the_session)
  have "succeeded (step before_response (SigZReadyRead False))
      \<and> \<not> addAllowed (the_session (step before_response (SigZReadyRead False)))"
    using plain_step_ok
    by (cases "step before_response (SigZReadyRead False)")
       (simp_all add: succeeded_def the_session_def)
  then have st: "step before_response (SigZReadyRead False) = Inr after_response"
    and na: "\<not> addAllowed after_response"
    unfolding after_response_def by (blast intro: succeeded_the_session)+
  have r2: "execute after_response [] = Inr after_response"
    by simp
  from flags_monotone [OF r1 st r2] na
  have "count_list (trace after_response) AddNotAllowed = 1"
    by simp
  with r1 st r2 na show ?thesis
    by blast
qed

text \<open>A session that hands off is over without having emitted \<^verbatim>\<open>addNotAllowed\<close>.\<close>

theorem handoff_without_addNotAllowed:
  "succeeded handoff_run \<and> dissolved (the_session handoff_run)
   \<and> handoffs (trace (the_session handoff_run)) \<noteq> []
   \<and> count_list (trace (the_session handoff_run)) AddNotAllowed = 0"
proof (cases handoff_run)
  case (Inl e)
  from handoff_run_result [unfolded Inl] show ?thesis
    by simp
next
  case (Inr s)
  from handoff_run_result [unfolded Inr] show ?thesis
    unfolding Inr by (auto simp: succeeded_def the_session_def)
qed

section \<open>Inspect data\<close>

lemma with_idata_sel [simp]:
  "state (with_idata a d s) = state s"
  "inRequest (with_idata a d s) = inRequest s"
  "isHttps (with_idata a d s) = isHttps s"
  "channelPrefix (with_idata a d s) = channelPrefix s"
  "targets (with_idata a d s) = targets s"
  "zhttpRequest (with_idata a d s) = zhttpRequest s"
  "addAllowed (with_idata a d s) = addAllowed s"
  "acceptTypes (with_idata a d s) = acceptTypes s"
  "sessionItems (with_idata a d s) = sessionItems s"
  "requestData (with_idata a d s) = requestData s"
  "responseData (with_idata a d s) = responseData s"
  "requestBody (with_idata a d s) = requestBody s"
  "responseBody (with_idata a d s) = responseBody s"
  "initialRequestBody (with_idata a d s) = initialRequestBody s"
  "requestBytesToWrite (with_idata a d s) = requestBytesToWrite s"
  "total_recv (with_idata a d s) = total_recv s"
  "buffering (with_idata a d s) = buffering s"
  "defaultSigIss (with_idata a d s) = defaultSigIss s"
  "defaultSigKey (with_idata a d s) = defaultSigKey s"
  "defaultUpstreamKey (with_idata a d s) = defaultUpstreamKey s"
  "passToUpstream (with_idata a d s) = passToUpstream s"
  "useXForwardedProtocol (with_idata a d s) = useXForwardedProtocol s"
  "xffRule (with_idata a d s) = xffRule s"
  "xffTrustedRule (with_idata a d s) = xffTrustedRule s"
  "zobjs (with_idata a d s) = zobjs s"
  "znext (with_idata a d s) = znext s"
  "deleted (with_idata a d s) = deleted s"
  "trace (with_idata a d s) = trace s"
  by (simp_all add: with_idata_def)

lemma with_idata_upd [simp]:
  "state_update f0 (with_idata a d s) = with_idata a d (state_update f0 s)"
  "inRequest_update f1 (with_idata a d s) = with_idata a d (inRequest_update f1 s)"
  "isHttps_update f2 (with_idata a d s) = with_idata a d (isHttps_update f2 s)"
  "channelPrefix_update f3 (with_idata a d s) = with_idata a d (channelPrefix_update f3 s)"
  "targets_update f4 (with_idata a d s) = with_idata a d (targets_update f4 s)"
  "zhttpRequest_update f5 (with_idata a d s) = with_idata a d (zhttpRequest_update f5 s)"
  "addAllowed_update f6 (with_idata a d s) = with_idata a d (addAllowed_update f6 s)"
  "acceptTypes_update f7 (with_idata a d s) = with_idata a d (acceptTypes_update f7 s)"
  "sessionItems_update f8 (with_idata a d s) = with_idata a d (sessionItems_update f8 s)"
  "requestData_update f9 (with_idata a d s) = with_idata a d (requestData_update f9 s)"
  "responseData_update f10 (with_idata a d s) = with_idata a d (responseData_update f10 s)"
  "requestBody_update f11 (with_idata a d s) = with_idata a d (requestBody_update f11 s)"
  "responseBody_update f12 (with_idata a d s) = with_idata a d (responseBody_update f12 s)"
  "initialRequestBody_update f13 (with_idata a d s) = with_idata a d (initialRequestBody_update f13 s)"
  "requestBytesToWrite_update f14 (with_idata a d s) = with_idata a d (requestBytesToWrite_update f14 s)"
  "total_recv_update f15 (with_idata a d s) = with_idata a d (total_recv_update f15 s)"
  "buffering_update f16 (with_idata a d s) = with_idata a d (buffering_update f16 s)"
  "defaultSigIss_update f17 (with_idata a d s) = with_idata a d (defaultSigIss_update f17 s)"
  "defaultSigKey_update f18 (with_idata a d s) = with_idata a d (defaultSigKey_update f18 s)"
  "defaultUpstreamKey_update f19 (with_idata a d s) = with_idata a d (defaultUpstreamKey_update f19 s)"
  "passToUpstream_update f20 (with_idata a d s) = with_idata a d (passToUpstream_update f20 s)"
  "useXForwardedProtocol_update f21 (with_idata a d s) = with_idata a d (useXForwardedProtocol_update f21 s)"
  "xffRule_update f22 (with_idata a d s) = with_idata a d (xffRule_update f22 s)"
  "xffTrustedRule_update f23 (with_idata a d s) = with_idata a d (xffTrustedRule_update f23 s)"
  "zobjs_update f24 (with_idata a d s) = with_idata a d (zobjs_update f24 s)"
  "znext_update f25 (with_idata a d s) = with_idata a d (znext_update f25 s)"
  "deleted_update f26 (with_idata a d s) = with_idata a d (deleted_update f26 s)"
  "trace_update f27 (with_idata a d s) = with_idata a d (trace_update f27 s)"
  by (simp_all add: with_idata_def)

lemma with_idata_zobjs [simp]: "zobjs (with_idata a d s) h = zobjs s h"
  by (simp add: with_idata_def)

lemma map_sum_if [simp]:
  "map_sum id g (if c then x else y) = (if c then map_sum id g x else map_sum id g y)"
  by simp

lemma map_sum_case_option [simp]:
  "map_sum id g (case v of None \<Rightarrow> x | Some w \<Rightarrow> y w)
     = (case v of None \<Rightarrow> map_sum id g x | Some w \<Rightarrow> map_sum id g (y w))"
  by (cases v) simp_all

lemma with_idata_idem [simp]: "with_idata a d (with_idata a' d' s) = with_idata a d s"
  by (simp add: with_idata_def)

lemma with_idata_self: "with_idata (haveInspectData s) (idata s) s = s"
  by (simp add: with_idata_def)

lemma setInspectData_with_idata:
  "setInspectData d' (with_idata a d s) = with_idata True d' s"
  "setInspectData d' s = with_idata True d' s"
  by (simp_all add: setInspectData_def with_idata_def)

lemma bind_r_map_sum: "bind_r (map_sum id g r) k = bind_r r (\<lambda>x. k (g x))"
  by (cases r) simp_all

lemma map_sum_bind_r: "map_sum id g (bind_r r k) = bind_r r (\<lambda>x. map_sum id g (k x))"
  by (cases r) simp_all

lemma emit_with_idata [simp]: "emit es (with_idata a d s) = with_idata a d (emit es s)"
  by (simp add: emit_def)

lemma foreach_items_with_idata [simp]:
  "foreach_items f (with_idata a d s) = map_sum id (with_idata a d) (foreach_items f s)"
  by (cases "foreach f (sessionItems s)") (auto simp: foreach_items_def)

lemma pendingWrites_with_idata [simp]: "pendingWrites (with_idata a d s) = pendingWrites s"
  by (simp add: pendingWrites_def)

lemma deref_z_with_idata [simp]: "deref_z (with_idata a d s) = deref_z s"
  by (simp add: deref_z_def cong: option.case_cong)

lemma dissolved_with_idata [simp]: "dissolved (with_idata a d s) = dissolved s"
  by (simp add: dissolved_def)

lemma rejectAll_with_idata [simp]:
  "rejectAll c r m (with_idata a d s) = map_sum id (with_idata a d) (rejectAll c r m s)"
  by (simp add: rejectAll_def)

lemma cannotAcceptAll_with_idata [simp]:
  "cannotAcceptAll (with_idata a d s) = map_sum id (with_idata a d) (cannotAcceptAll s)"
  by (simp add: cannotAcceptAll_def)

lemma destroyAll_with_idata [simp]:
  "destroyAll (with_idata a d s) = map_sum id (with_idata a d) (destroyAll s)"
  by (simp add: destroyAll_def)

lemma tryNextTarget_with_idata [simp]:
  "tryNextTarget (with_idata a d s) = map_sum id (with_idata a d) (tryNextTarget s)"
  by (simp add: tryNextTarget_def Let_def split: list.splits option.splits cong: if_cong)

lemma tryRequestRead_with_idata [simp]:
  "tryRequestRead (with_idata a d s) = map_sum id (with_idata a d) (tryRequestRead s)"
  by (simp add: tryRequestRead_def Let_def split: option.splits cong: if_cong)

lemma checkIncomingResponseFinished_with_idata [simp]:
  "checkIncomingResponseFinished (with_idata a d s)
     = map_sum id (with_idata a d) (checkIncomingResponseFinished s)"
  by (cases "deref_z s")
     (auto simp: checkIncomingResponseFinished_def Let_def map_sum_bind_r bind_r_map_sum
        cong: if_cong)

lemma tryResponseRead_with_idata [simp]:
  "tryResponseRead del (with_idata a d s) = map_sum id (with_idata a d) (tryResponseRead del s)"
  by (cases "deref_z s")
     (auto simp: tryResponseRead_def Let_def map_sum_bind_r bind_r_map_sum cong: if_cong)

lemma route_signing_with_idata [simp]:
  "route_signing env entry (with_idata a d s) = with_idata a d (route_signing env entry s)"
  by (simp add: route_signing_def Let_def cong: if_cong)

lemma forwarded_protocol_with_idata [simp]:
  "forwarded_protocol (with_idata a d s) = with_idata a d (forwarded_protocol s)"
  by (simp add: forwarded_protocol_def Let_def cong: if_cong)

lemma forwarded_for_with_idata [simp]:
  "forwarded_for r (with_idata a d s) = with_idata a d (forwarded_for r s)"
  by (simp add: forwarded_for_def Let_def cong: if_cong)

lemma start_requesting_with_idata [simp]:
  "start_requesting r (with_idata a d s) = with_idata a d (start_requesting r s)"
  by (simp add: start_requesting_def Let_def cong: if_cong)

lemma add_route_with_idata [simp]:
  "add_route env r entry (with_idata a d s) = map_sum id (with_idata a d) (add_route env r entry s)"
  by (simp add: add_route_def)

lemma add_with_idata [simp]:
  "add dm env r (with_idata a d s) = map_sum id (with_idata a d) (add dm env r s)"
  by (simp add: add_def Let_def catch_up_def cong: if_cong option.case_cong)

lemma inRequest_readyRead_with_idata [simp]:
  "inRequest_readyRead (with_idata a d s) = map_sum id (with_idata a d) (inRequest_readyRead s)"
  by (simp add: inRequest_readyRead_def map_sum_bind_r bind_r_map_sum
      cong: if_cong option.case_cong)

lemma inRequest_error_with_idata [simp]:
  "inRequest_error (with_idata a d s) = map_sum id (with_idata a d) (inRequest_error s)"
  by (simp add: inRequest_error_def)

lemma zhttpRequest_readyRead_with_idata [simp]:
  "zhttpRequest_readyRead del (with_idata a d s)
     = map_sum id (with_idata a d) (zhttpRequest_readyRead del s)"
  by (cases "deref_z s")
     (auto simp: zhttpRequest_readyRead_def Let_def map_sum_bind_r bind_r_map_sum cong: if_cong)

lemma zhttpRequest_bytesWritten_with_idata [simp]:
  "zhttpRequest_bytesWritten n (with_idata a d s)
     = map_sum id (with_idata a d) (zhttpRequest_bytesWritten n s)"
  by (simp add: zhttpRequest_bytesWritten_def Let_def cong: if_cong)

lemma zhttpRequest_error_with_idata [simp]:
  "zhttpRequest_error (with_idata a d s) = map_sum id (with_idata a d) (zhttpRequest_error s)"
proof (cases "deref_z s")
  case (Inl e)
  then show ?thesis by (simp add: zhttpRequest_error_def)
next
  case (Inr hz)
  then show ?thesis
    by (cases hz; cases "z_errorCondition (snd hz)")
       (simp_all add: zhttpRequest_error_def Let_def cong: if_cong)
qed

lemma rs_bytesWritten_with_idata [simp]:
  "rs_bytesWritten p n del (with_idata a d s)
     = map_sum id (with_idata a d) (rs_bytesWritten p n del s)"
  by (cases "lookup_item p (sessionItems s)")
     (simp_all add: rs_bytesWritten_def Let_def cong: if_cong)

lemma rs_finished_with_idata [simp]:
  "rs_finished p del (with_idata a d s) = map_sum id (with_idata a d) (rs_finished p del s)"
  by (cases "lookup_item p (sessionItems s)")
     (simp_all add: rs_finished_def Let_def cong: if_cong)

lemma cleanup_with_idata [simp]: "cleanup (with_idata a d s) = with_idata a d (cleanup s)"
  by (simp add: cleanup_def)

lemma rs_paused_with_idata [simp]:
  "rs_paused p (with_idata a d s) = map_sum id (with_idata a d) (rs_paused p s)"
  by (cases "lookup_item p (sessionItems s)")
     (simp_all add: rs_paused_def Let_def cong: if_cong)

lemma rs_errorResponding_with_idata [simp]:
  "rs_errorResponding p (with_idata a d s)
     = map_sum id (with_idata a d) (rs_errorResponding p s)"
  by (cases "lookup_item p (sessionItems s)")
     (simp_all add: rs_errorResponding_def cong: if_cong)

lemma step_with_idata:
  assumes "\<not> sets_inspect_data ev"
  shows "step (with_idata a d s) ev = map_sum id (with_idata a d) (step s ev)"
  using assms
  by (cases ev)
     (simp_all add: step_def sets_inspect_data_def setDefaultSigKey_def
        setDefaultUpstreamKey_def setUseXForwardedProtocol_def setXffRules_def)

lemma step_sets_inspect_data:
  assumes "sets_inspect_data ev"
  shows "\<exists>d'. step (with_idata a d s) ev = Inr (with_idata True d' s)"
  using assms by (cases ev) (auto simp: step_def sets_inspect_data_def setInspectData_with_idata)

lemma execute_with_idata:
  "\<exists>a' d'. execute (with_idata a d s) evs
      = map_sum id (with_idata a' d') (execute s (without_inspect_data evs))"
proof (induction evs arbitrary: s a d)
  case Nil
  show ?case
    by (rule exI [of _ a], rule exI [of _ d]) (simp add: without_inspect_data_def)
next
  case (Cons ev evs)
  show ?case
  proof (cases "sets_inspect_data ev")
    case True
    from step_sets_inspect_data [OF True] obtain d' where
      "step (with_idata a d s) ev = Inr (with_idata True d' s)"
      by blast
    then have "execute (with_idata a d s) (ev # evs) = execute (with_idata True d' s) evs"
      by simp
    moreover from True have "without_inspect_data (ev # evs) = without_inspect_data evs"
      by (simp add: without_inspect_data_def)
    ultimately show ?thesis
      using Cons.IH [of True d' s] by simp
  next
    case keep: False
    then have w: "without_inspect_data (ev # evs) = ev # without_inspect_data evs"
      by (simp add: without_inspect_data_def)
    show ?thesis
    proof (cases "step s ev")
      case (Inl e)
      with keep show ?thesis
        by (intro exI [of _ a] exI [of _ d]) (simp add: w step_with_idata)
    next
      case (Inr s1)
      with keep have "execute (with_idata a d s) (ev # evs) = execute (with_idata a d s1) evs"
        by (simp add: step_with_idata)
      moreover from Inr have "execute s (without_inspect_data (ev # evs))
          = execute s1 (without_inspect_data evs)"
        by (simp add: w)
      ultimately show ?thesis
        using Cons.IH [of a d s1] by simp
    qed
  qed
qed

lemma trace_of_with_idata: "trace_of (map_sum id (with_idata a d) r) = trace_of r"
  by (cases r) (simp_all add: trace_of_def)

lemma handoffs_of_trace_of:
  "trace_of r = trace_of r' \<Longrightarrow> handoffs_of r = handoffs_of r'"
  by (cases r; cases r') (simp_all add: trace_of_def handoffs_of_def)

text \<open>
  C8. \<^verbatim>\<open>setInspectData\<close> stores the inspect data in the session, and it is not forwarded:
  over every execution, what the session does (every call it makes and every signal it
  emits, the handoff record of \<^verbatim>\<open>finishedForAccept\<close> among them) is what it does in the
  execution without the calls of \<^verbatim>\<open>setInspectData\<close>.
\<close>

theorem inspect_data_stored_not_forwarded:
  "haveInspectData (setInspectData d s) \<and> idata (setInspectData d s) = d
   \<and> trace_of (execute (Private b0 xr0) evs)
       = trace_of (execute (Private b0 xr0) (without_inspect_data evs))
   \<and> handoffs_of (execute (Private b0 xr0) evs)
       = handoffs_of (execute (Private b0 xr0) (without_inspect_data evs))"
proof -
  have p: "with_idata False [] (Private b0 xr0) = Private b0 xr0"
    by (simp add: with_idata_def Private_def)
  from execute_with_idata [of False "[]" "Private b0 xr0" evs] obtain a' d' where
    "execute (Private b0 xr0) evs
       = map_sum id (with_idata a' d') (execute (Private b0 xr0) (without_inspect_data evs))"
    unfolding p by blast
  then have t: "trace_of (execute (Private b0 xr0) evs)
       = trace_of (execute (Private b0 xr0) (without_inspect_data evs))"
    by (simp add: trace_of_with_idata)
  moreover from t have "handoffs_of (execute (Private b0 xr0) evs)
       = handoffs_of (execute (Private b0 xr0) (without_inspect_data evs))"
    by (rule handoffs_of_trace_of)
  moreover have "haveInspectData (setInspectData d s) \<and> idata (setInspectData d s) = d"
    by (simp add: setInspectData_def)
  ultimately show ?thesis
    by blast
qed

theorem inspect_data_stored_not_forwarded_witness:
  "without_inspect_data (CallSetInspectData ''inspect-A'' # handoff_events) = handoff_events
   \<and> handoffs_of (execute (Private True xff0) (CallSetInspectData ''inspect-A'' # handoff_events))
       = handoffs_of (execute (Private True xff0) handoff_events)"
proof -
  have w: "without_inspect_data (CallSetInspectData ''inspect-A'' # handoff_events)
      = handoff_events"
    by (simp add: without_inspect_data_def sets_inspect_data_def handoff_events_def)
  from inspect_data_stored_not_forwarded
    [of "''inspect-A''" "Private True xff0" True xff0
        "CallSetInspectData ''inspect-A'' # handoff_events"]
  show ?thesis
    unfolding w by (simp add: w)
qed

text \<open>Two executions that differ in the inspect data set at the start: each session holds
  its inspect data, and both hand off the same record.\<close>

theorem inspect_data_not_in_handoff:
  "(case inspect_runs of
      (Inr sa, Inr sb) \<Rightarrow>
         idata sa = ''inspect-A'' \<and> idata sb = ''inspect-B''
         \<and> length (handoffs (trace sa)) = 1 \<and> handoffs (trace sa) = handoffs (trace sb)
    | _ \<Rightarrow> False)"
  by code_simp

section \<open>The handoff over a session\<close>










end
